theory Spec2Isabelle
  imports Complex_Main "HOL-Library.Multiset" "HOL-Library.List_Lexorder" "HOL-Library.Char_ord"
begin

text \<open>
  A shallow embedding of the sorting engine and benchmarking harness of the bid sorting program:
  \<^verbatim>\<open>src/artifacts/algorithms/enhanced/EnhancedVectorSorting.cpp\<close> (the enhanced variant, class
  \<^verbatim>\<open>BidSorter\<close> and the functions around it) and
  \<^verbatim>\<open>src/artifacts/algorithms/original/VectorSorting.cpp\<close> (the original variant). Definitions
  carry the names of the source; those of the original variant end in \<open>_original\<close>. The words
  \<^verbatim>\<open>begin\<close> and \<^verbatim>\<open>end\<close> are reserved in Isabelle, so the parameters of that name are written
  \<open>beg\<close> and \<open>fin\<close>.
\<close>

section \<open>Data model\<close>

text \<open>
  Both source files declare the same record type,
  \<^verbatim>\<open>struct Bid { string bidId; string title; string fund; double amount; }\<close>.
  A \<^verbatim>\<open>std::string\<close> is a sequence of bytes, and \<^verbatim>\<open>operator<\<close> compares two of them
  lexicographically by unsigned byte value, a proper prefix being the smaller: this is the order
  that the library theories \<open>List_Lexorder\<close> and \<open>Char_ord\<close> give to \<open>string\<close>. The sorting
  engine never reads the field \<open>amount\<close>; it is a payload that moves with its record, modelled
  as a real number.
\<close>

record Bid =
  bidId :: string
  title :: string
  fund :: string
  amount :: real

section \<open>Machine integers and vector accesses\<close>

text \<open>
  Indices are \<^verbatim>\<open>size_t\<close> values, taken as 64 bits wide and modelled as natural numbers. An
  addition such as \<^verbatim>\<open>lowIndex + 1\<close> is written as it stands: every index the code increments
  has just been used to read a position of a vector or is below one that has, so the sum stays
  below \<open>2 ^ 64\<close>. Subtraction can wrap around (\<^verbatim>\<open>size - 1\<close> on an empty vector, \<^verbatim>\<open>n / 2 - 1\<close> for
  \<^verbatim>\<open>n = 1\<close>); \<open>size_sub\<close> writes the wrap-around out.
\<close>

definition size_sub :: "nat \<Rightarrow> nat \<Rightarrow> nat" where
  "size_sub a b = (if b \<le> a then a - b else a + 2 ^ 64 - b)"

text \<open>
  \<^verbatim>\<open>bids[i]\<close> on a \<^verbatim>\<open>std::vector\<close> with \<^verbatim>\<open>i >= bids.size()\<close> is undefined behaviour. The model
  makes it a value: a read, a swap or a store with an index out of range is \<open>None\<close>, and every
  function that performs one passes the \<open>None\<close> on. A result \<open>Some\<close> therefore says that the run
  made in-range accesses only and returned.
\<close>

definition read_at :: "Bid list \<Rightarrow> nat \<Rightarrow> Bid option" where
  "read_at bids i = (if i < length bids then Some (bids ! i) else None)"

definition swap_at :: "Bid list \<Rightarrow> nat \<Rightarrow> nat \<Rightarrow> Bid list option" where
  "swap_at bids i j =
     (if i < length bids \<and> j < length bids
      then Some (bids[i := bids ! j, j := bids ! i]) else None)"

definition store_at :: "Bid list \<Rightarrow> nat \<Rightarrow> Bid \<Rightarrow> Bid list option" where
  "store_at bids k b = (if k < length bids then Some (bids[k := b]) else None)"

lemma size_sub_1: "0 < n \<Longrightarrow> size_sub n 1 = n - 1"
  by (simp add: size_sub_def)

lemma swap_at_same: "i < length bids \<Longrightarrow> swap_at bids i i = Some bids"
  by (simp add: swap_at_def)

lemma mset_swap_upd:
  "i < length xs \<Longrightarrow> j < length xs \<Longrightarrow> mset (xs[i := xs ! j, j := xs ! i]) = mset xs"
  by (simp add: mset_swap)

subsection \<open>Segments of an array\<close>

text \<open>
  The inclusive segment \<open>[beg, fin]\<close> of an array is \<open>take (Suc fin - beg) (drop beg bids)\<close>. A
  rearrangement that keeps the multiset of the whole array and every position outside the
  segment keeps the multiset of the segment, so a bound on all elements of the segment survives.
\<close>

lemma segment_mset:
  assumes len: "length out = length bids" and ms: "mset out = mset bids"
    and fr: "\<forall>k. k < beg \<or> fin < k \<longrightarrow> out ! k = bids ! k"
  shows "mset (take (Suc fin - beg) (drop beg out)) = mset (take (Suc fin - beg) (drop beg bids))"
proof -
  have t: "take beg out = take beg bids"
    by (rule nth_equalityI) (use len fr in auto)
  have d: "drop (Suc fin - beg) (drop beg out) = drop (Suc fin - beg) (drop beg bids)"
    by (rule nth_equalityI) (use len fr in auto)
  have "mset out = mset (take beg out) + (mset (take (Suc fin - beg) (drop beg out)) +
          mset (drop (Suc fin - beg) (drop beg out)))"
    by (metis append_take_drop_id mset_append)
  moreover have "mset bids = mset (take beg bids) + (mset (take (Suc fin - beg) (drop beg bids)) +
          mset (drop (Suc fin - beg) (drop beg bids)))"
    by (metis append_take_drop_id mset_append)
  ultimately show ?thesis using ms t d by simp
qed

lemma segment_set:
  assumes "fin < length bids"
  shows "set (take (Suc fin - beg) (drop beg bids)) = {bids ! k |k. beg \<le> k \<and> k \<le> fin}"
proof -
  have "take (Suc fin - beg) (drop beg bids) = map ((!) bids) [beg..<Suc fin]"
    by (rule nth_equalityI) (use assms in \<open>auto simp del: upt_Suc\<close>)
  then show ?thesis by (auto simp del: upt_Suc simp: less_Suc_eq_le)
qed

lemma segment_transfer:
  assumes len: "length out = length bids" and ms: "mset out = mset bids"
    and fr: "\<forall>k. k < beg \<or> fin < k \<longrightarrow> out ! k = bids ! k"
    and fin: "fin < length bids"
    and P: "\<forall>k. beg \<le> k \<and> k \<le> fin \<longrightarrow> P (bids ! k)"
    and k: "beg \<le> k" "k \<le> fin"
  shows "P (out ! k)"
proof -
  have "out ! k \<in> set (take (Suc fin - beg) (drop beg out))"
    using segment_set[of fin out beg] fin len k by auto
  also have "\<dots> = set (take (Suc fin - beg) (drop beg bids))"
    using segment_mset[OF len ms fr] by (rule mset_eq_setD)
  also have "\<dots> = {bids ! k |k. beg \<le> k \<and> k \<le> fin}" by (rule segment_set[OF fin])
  finally show ?thesis using P by auto
qed

section \<open>Selection sort\<close>

text \<open>
  The enhanced \<^verbatim>\<open>BidSorter::selectionSort\<close>:
  \<^verbatim>\<open>
  if (bids.empty()) return;
  size_t size = bids.size();
  for (size_t i = 0; i < size - 1; ++i) {
      size_t minIndex = i;
      for (size_t j = i + 1; j < size; ++j)
          if (bids[j].title < bids[minIndex].title) minIndex = j;
      if (minIndex != i) swap(bids[i], bids[minIndex]);
  }\<close>
  \<open>find_min\<close> is the inner loop, from the state \<open>(j, minIndex)\<close>; \<open>sel_loop\<close> the outer loop from
  \<open>i\<close>. The variable \<^verbatim>\<open>size\<close> is written \<open>sz\<close>.
\<close>

function find_min :: "Bid list \<Rightarrow> nat \<Rightarrow> nat \<Rightarrow> nat \<Rightarrow> nat option" where
  "find_min bids sz j minIndex =
     (if j < sz then
        (case read_at bids j of
           None \<Rightarrow> None
         | Some bj \<Rightarrow>
             (case read_at bids minIndex of
                None \<Rightarrow> None
              | Some bm \<Rightarrow>
                  find_min bids sz (j + 1) (if title bj < title bm then j else minIndex)))
      else Some minIndex)"
  by pat_completeness auto
termination
  by (relation "measure (\<lambda>(bids, sz, j, minIndex). sz - j)") auto

function sel_loop :: "Bid list \<Rightarrow> nat \<Rightarrow> nat \<Rightarrow> Bid list option" where
  "sel_loop bids sz i =
     (if i < size_sub sz 1 then
        (case find_min bids sz (i + 1) i of
           None \<Rightarrow> None
         | Some minIndex \<Rightarrow>
             (if minIndex \<noteq> i then
                (case swap_at bids i minIndex of
                   None \<Rightarrow> None
                 | Some bids' \<Rightarrow> sel_loop bids' sz (i + 1))
              else sel_loop bids sz (i + 1)))
      else Some bids)"
  by pat_completeness auto
termination
  by (relation "measure (\<lambda>(bids, sz, i). size_sub sz 1 - i)") auto

definition selectionSort :: "Bid list \<Rightarrow> Bid list option" where
  "selectionSort bids = (if bids = [] then Some bids else sel_loop bids (length bids) 0)"

text \<open>
  The original \<^verbatim>\<open>selectionSort\<close> has no test for the empty vector and no test before the swap:
  \<^verbatim>\<open>
  size_t min = 0;
  size_t size = bids.size();
  for (size_t pos = 0; pos < size - 1; ++pos) {
      min = pos;
      for (size_t j = pos + 1; j < size; ++j)
          if (bids[j].title < bids[min].title) min = j;
      swap(bids[pos], bids[min]);
  }\<close>
  Its inner loop is the inner loop of the enhanced variant. On an empty vector \<^verbatim>\<open>size - 1\<close>
  wraps around, the outer loop is entered and \<^verbatim>\<open>swap(bids[0], bids[0])\<close> is out of range.
\<close>

function sel_loop_original :: "Bid list \<Rightarrow> nat \<Rightarrow> nat \<Rightarrow> Bid list option" where
  "sel_loop_original bids sz pos =
     (if pos < size_sub sz 1 then
        (case find_min bids sz (pos + 1) pos of
           None \<Rightarrow> None
         | Some mn \<Rightarrow>
             (case swap_at bids pos mn of
                None \<Rightarrow> None
              | Some bids' \<Rightarrow> sel_loop_original bids' sz (pos + 1)))
      else Some bids)"
  by pat_completeness auto
termination
  by (relation "measure (\<lambda>(bids, sz, pos). size_sub sz 1 - pos)") auto

definition selectionSort_original :: "Bid list \<Rightarrow> Bid list option" where
  "selectionSort_original bids = sel_loop_original bids (length bids) 0"

subsection \<open>Correctness of selection sort\<close>

declare find_min.simps [simp del] sel_loop.simps [simp del] sel_loop_original.simps [simp del]

lemma find_min_spec:
  assumes "sz = length bids" "m < j" "j \<le> sz"
  shows "\<exists>r. find_min bids sz j m = Some r \<and> r < sz \<and> m \<le> r \<and> (r = m \<or> j \<le> r) \<and>
           title (bids ! r) \<le> title (bids ! m) \<and>
           (\<forall>k. j \<le> k \<and> k < sz \<longrightarrow> title (bids ! r) \<le> title (bids ! k)) \<and>
           ((\<forall>k. j \<le> k \<and> k < sz \<longrightarrow> title (bids ! m) \<le> title (bids ! k)) \<longrightarrow> r = m)"
  using assms
proof (induction bids sz j m rule: find_min.induct)
  case (1 bids sz j m)
  show ?case
  proof (cases "j < sz")
    case False
    with "1.prems" show ?thesis
      by (auto simp: find_min.simps)
  next
    case True
    define m' where "m' = (if title (bids ! j) < title (bids ! m) then j else m)"
    have rj: "read_at bids j = Some (bids ! j)" and rm: "read_at bids m = Some (bids ! m)"
      using True "1.prems" by (simp_all add: read_at_def)
    have m'j: "m' < j + 1" using "1.prems" by (simp add: m'_def)
    from "1.IH"[OF True rj rm, folded m'_def, OF "1.prems"(1) m'j] True
    obtain r where r: "find_min bids sz (j + 1) m' = Some r" "r < sz" "m' \<le> r" "r = m' \<or> j + 1 \<le> r"
      "title (bids ! r) \<le> title (bids ! m')"
      "\<forall>k. j + 1 \<le> k \<and> k < sz \<longrightarrow> title (bids ! r) \<le> title (bids ! k)"
      "(\<forall>k. j + 1 \<le> k \<and> k < sz \<longrightarrow> title (bids ! m') \<le> title (bids ! k)) \<longrightarrow> r = m'"
      by auto
    have step: "find_min bids sz j m = Some r"
      using True rj rm r(1) by (subst find_min.simps) (simp add: m'_def)
    have le_m: "title (bids ! m') \<le> title (bids ! m)" and le_j: "title (bids ! m') \<le> title (bids ! j)"
      by (auto simp: m'_def)
    have a: "m \<le> r" using r(3) "1.prems" by (auto simp: m'_def split: if_splits)
    have b: "r = m \<or> j \<le> r" using r(4) by (auto simp: m'_def split: if_splits)
    have c: "title (bids ! r) \<le> title (bids ! m)" using r(5) le_m by simp
    have d: "\<forall>k. j \<le> k \<and> k < sz \<longrightarrow> title (bids ! r) \<le> title (bids ! k)"
    proof (intro allI impI)
      fix k assume k: "j \<le> k \<and> k < sz"
      show "title (bids ! r) \<le> title (bids ! k)"
      proof (cases "k = j")
        case True then show ?thesis using r(5) le_j by simp
      next
        case False then show ?thesis using k r(6) by simp
      qed
    qed
    have e: "(\<forall>k. j \<le> k \<and> k < sz \<longrightarrow> title (bids ! m) \<le> title (bids ! k)) \<longrightarrow> r = m"
    proof
      assume h: "\<forall>k. j \<le> k \<and> k < sz \<longrightarrow> title (bids ! m) \<le> title (bids ! k)"
      then have "title (bids ! m) \<le> title (bids ! j)" using True by simp
      then have "m' = m" by (auto simp: m'_def)
      with r(7) h show "r = m" by simp
    qed
    from step r(2) a b c d e show ?thesis by blast
  qed
qed

lemma find_min_next:
  assumes "sz = length bids" "i < sz - 1"
  obtains r where "find_min bids sz (i + 1) i = Some r" "r < sz" "i \<le> r"
    "title (bids ! r) \<le> title (bids ! i)"
    "\<forall>k. i + 1 \<le> k \<and> k < sz \<longrightarrow> title (bids ! r) \<le> title (bids ! k)"
    "(\<forall>k. i + 1 \<le> k \<and> k < sz \<longrightarrow> title (bids ! i) \<le> title (bids ! k)) \<longrightarrow> r = i"
proof -
  have "i < i + 1" "i + 1 \<le> sz" using assms(2) by simp_all
  from find_min_spec[OF assms(1) this] that show thesis by blast
qed

lemma sorted_titles_iff:
  "sorted (map title bids) \<longleftrightarrow> (\<forall>a b. a \<le> b \<and> b < length bids \<longrightarrow> title (bids ! a) \<le> title (bids ! b))"
  by (auto simp: sorted_iff_nth_mono)

lemma sel_loop_spec:
  assumes "sz = length bids" "0 < sz"
    and "\<forall>a b. a < i \<and> a \<le> b \<and> b < sz \<longrightarrow> title (bids ! a) \<le> title (bids ! b)"
  shows "\<exists>out. sel_loop bids sz i = Some out \<and> length out = sz \<and> mset out = mset bids \<and>
           sorted (map title out)"
  using assms
proof (induction bids sz i rule: sel_loop.induct)
  case (1 bids sz i)
  note inv = "1.prems"(3)
  have ss: "size_sub sz 1 = sz - 1" by (rule size_sub_1) (rule "1.prems"(2))
  show ?case
  proof (cases "i < sz - 1")
    case False
    have "title (bids ! a) \<le> title (bids ! b)" if "a \<le> b \<and> b < length bids" for a b
    proof (cases "a < i")
      case True then show ?thesis using inv that "1.prems"(1) by simp
    next
      case False
      with \<open>\<not> i < sz - 1\<close> that "1.prems"(1) have "a = b" by arith
      then show ?thesis by simp
    qed
    then have "sorted (map title bids)" by (simp add: sorted_titles_iff)
    with False ss "1.prems" show ?thesis by (simp add: sel_loop.simps)
  next
    case True
    then have lt: "i < size_sub sz 1" using ss by simp
    from find_min_next[OF "1.prems"(1) True]
    obtain r where r: "find_min bids sz (i + 1) i = Some r" "r < sz" "i \<le> r"
      "title (bids ! r) \<le> title (bids ! i)"
      "\<forall>k. i + 1 \<le> k \<and> k < sz \<longrightarrow> title (bids ! r) \<le> title (bids ! k)"
      by blast
    have rmin: "title (bids ! r) \<le> title (bids ! k)" if "i \<le> k" "k < sz" for k
      using r(4,5) that by (cases "k = i") auto
    show ?thesis
    proof (cases "r = i")
      case True
      have inv': "\<forall>a b. a < i + 1 \<and> a \<le> b \<and> b < sz \<longrightarrow> title (bids ! a) \<le> title (bids ! b)"
      proof (intro allI impI)
        fix a b assume h: "a < i + 1 \<and> a \<le> b \<and> b < sz"
        show "title (bids ! a) \<le> title (bids ! b)"
        proof (cases "a < i")
          case True then show ?thesis using inv h by simp
        next
          case False
          with h have "a = i" by simp
          then show ?thesis using rmin[of b] h True by simp
        qed
      qed
      from "1.IH"(2)[OF lt r(1) _ "1.prems"(1,2) inv'] True
      obtain out where "sel_loop bids sz (i + 1) = Some out" "length out = sz" "mset out = mset bids"
        "sorted (map title out)" by auto
      then show ?thesis using lt r(1) True by (subst sel_loop.simps) simp
    next
      case False
      define bids' where "bids' = bids[i := bids ! r, r := bids ! i]"
      have il: "i < length bids" and rl: "r < length bids" using r(2,3) "1.prems"(1) by simp_all
      have sw: "swap_at bids i r = Some bids'" using il rl by (simp add: swap_at_def bids'_def)
      have len: "sz = length bids'" using "1.prems"(1) by (simp add: bids'_def)
      have ms: "mset bids' = mset bids" unfolding bids'_def using il rl by (rule mset_swap_upd)
      have nth': "bids' ! k = (if k = r then bids ! i else if k = i then bids ! r else bids ! k)"
        if "k < sz" for k
        using that il rl "1.prems"(1) by (simp add: bids'_def nth_list_update)
      have inv': "\<forall>a b. a < i + 1 \<and> a \<le> b \<and> b < sz \<longrightarrow> title (bids' ! a) \<le> title (bids' ! b)"
      proof (intro allI impI)
        fix a b assume h: "a < i + 1 \<and> a \<le> b \<and> b < sz"
        then have asz: "a < sz" and bsz: "b < sz" by simp_all
        show "title (bids' ! a) \<le> title (bids' ! b)"
        proof (cases "a < i")
          case True
          then have "a \<noteq> r" "a \<noteq> i" using r(3) by simp_all
          then have a': "bids' ! a = bids ! a" using nth'[OF asz] by simp
          have "\<exists>b'. a \<le> b' \<and> b' < sz \<and> bids' ! b = bids ! b'"
            using nth'[OF bsz] h True r(2,3) il "1.prems"(1)
            by (metis le_trans less_imp_le_nat)
          then show ?thesis using inv True a' by auto
        next
          case f: False
          with h have ai: "a = i" by simp
          then have a': "bids' ! a = bids ! r" using nth'[OF asz] \<open>r \<noteq> i\<close> by simp
          have "\<exists>b'. i \<le> b' \<and> b' < sz \<and> bids' ! b = bids ! b'"
            using nth'[OF bsz] h ai r(2,3) il "1.prems"(1)
            by (metis le_refl)
          then show ?thesis using rmin a' by auto
        qed
      qed
      from "1.IH"(1)[OF lt r(1) False sw len "1.prems"(2) inv']
      obtain out where "sel_loop bids' sz (i + 1) = Some out" "length out = sz" "mset out = mset bids'"
        "sorted (map title out)" by auto
      then show ?thesis using lt r(1) False sw ms by (subst sel_loop.simps) simp
    qed
  qed
qed

lemma selectionSort_spec:
  "\<exists>out. selectionSort bids = Some out \<and> length out = length bids \<and> mset out = mset bids \<and>
     sorted (map title out)"
proof (cases "bids = []")
  case True
  then show ?thesis by (simp add: selectionSort_def)
next
  case False
  then have "0 < length bids" by simp
  from sel_loop_spec[OF refl this, of 0] False show ?thesis
    by (simp add: selectionSort_def)
qed

lemma sel_loop_sorted_id:
  assumes "sz = length bids" "0 < sz" "sorted (map title bids)"
  shows "sel_loop bids sz i = Some bids"
  using assms
proof (induction bids sz i rule: sel_loop.induct)
  case (1 bids sz i)
  have ss: "size_sub sz 1 = sz - 1" by (rule size_sub_1) (rule "1.prems"(2))
  show ?case
  proof (cases "i < sz - 1")
    case False
    then show ?thesis using ss by (simp add: sel_loop.simps)
  next
    case True
    then have lt: "i < size_sub sz 1" using ss by simp
    have "\<forall>k. i + 1 \<le> k \<and> k < sz \<longrightarrow> title (bids ! i) \<le> title (bids ! k)"
      using "1.prems"(1,3) by (simp add: sorted_titles_iff)
    with find_min_next[OF "1.prems"(1) True]
    have r: "find_min bids sz (i + 1) i = Some i" by metis
    from "1.IH"(2)[OF lt r _ "1.prems"] have "sel_loop bids sz (i + 1) = Some bids" by simp
    then show ?thesis using lt r by (subst sel_loop.simps) simp
  qed
qed

lemma selectionSort_sorted_id:
  "sorted (map title bids) \<Longrightarrow> selectionSort bids = Some bids"
  by (cases "bids = []") (simp_all add: selectionSort_def sel_loop_sorted_id)

lemma sel_loop_original_eq:
  assumes "sz = length bids" "0 < sz"
  shows "sel_loop_original bids sz i = sel_loop bids sz i"
  using assms
proof (induction bids sz i rule: sel_loop.induct)
  case (1 bids sz i)
  have ss: "size_sub sz 1 = sz - 1" by (rule size_sub_1) (rule "1.prems"(2))
  show ?case
  proof (cases "i < sz - 1")
    case False
    then show ?thesis using ss by (simp add: sel_loop.simps sel_loop_original.simps)
  next
    case True
    then have lt: "i < size_sub sz 1" using ss by simp
    from find_min_next[OF "1.prems"(1) True]
    obtain r where r: "find_min bids sz (i + 1) i = Some r" "r < sz" by blast
    show ?thesis
    proof (cases "r = i")
      case True
      have "swap_at bids i i = Some bids" using r(2) True "1.prems"(1) by (simp add: swap_at_same)
      moreover have "sel_loop_original bids sz (i + 1) = sel_loop bids sz (i + 1)"
        using "1.IH"(2)[OF lt r(1) _ "1.prems"] True by simp
      ultimately show ?thesis using lt r(1) True
        by (subst sel_loop.simps, subst sel_loop_original.simps) simp
    next
      case False
      define bids' where "bids' = bids[i := bids ! r, r := bids ! i]"
      have sw: "swap_at bids i r = Some bids'"
        using r(2) True "1.prems"(1) by (simp add: swap_at_def bids'_def)
      have len: "sz = length bids'" using "1.prems"(1) by (simp add: bids'_def)
      have "sel_loop_original bids' sz (i + 1) = sel_loop bids' sz (i + 1)"
        using "1.IH"(1)[OF lt r(1) False sw len "1.prems"(2)] .
      then show ?thesis using lt r(1) False sw
        by (subst sel_loop.simps, subst sel_loop_original.simps) simp
    qed
  qed
qed

lemma selectionSort_original_eq:
  "bids \<noteq> [] \<Longrightarrow> selectionSort_original bids = selectionSort bids"
  by (simp add: selectionSort_original_def selectionSort_def sel_loop_original_eq)

section \<open>Quick sort\<close>

subsection \<open>The partition step of the enhanced variant\<close>

text \<open>
  \<^verbatim>\<open>BidSorter::partition\<close>:
  \<^verbatim>\<open>
  if (begin >= end) return begin;
  size_t lowIndex = begin;
  size_t highIndex = end;
  size_t middlePoint = lowIndex + (highIndex - lowIndex) / 2;
  string pivot = bids[middlePoint].title;
  while (true) {
      while (lowIndex <= end && bids[lowIndex].title < pivot) lowIndex++;
      while (highIndex >= begin && pivot < bids[highIndex].title) highIndex--;
      if (highIndex <= lowIndex) return highIndex;
      swap(bids[lowIndex], bids[highIndex]);
      lowIndex++;
      highIndex--;
  }\<close>
  Each function of the model returns, next to its result, the list of the indices at which it
  accessed \<^verbatim>\<open>bids\<close>, in the order of the accesses: one entry for every evaluation of
  \<^verbatim>\<open>bids[lowIndex]\<close>, \<^verbatim>\<open>bids[highIndex]\<close> and \<^verbatim>\<open>bids[middlePoint]\<close>, two for a swap. The list is
  an observation added by the model; no result depends on it.

  \<open>lo_scan\<close> is the first inner loop. The conjunction short-circuits: when \<^verbatim>\<open>lowIndex <= end\<close>
  fails, nothing is read.
\<close>

function lo_scan :: "Bid list \<Rightarrow> nat \<Rightarrow> string \<Rightarrow> nat \<Rightarrow> (nat \<times> nat list) option" where
  "lo_scan bids fin pivot lowIndex =
     (if lowIndex \<le> fin then
        (case read_at bids lowIndex of
           None \<Rightarrow> None
         | Some b \<Rightarrow>
             if title b < pivot then
               (case lo_scan bids fin pivot (lowIndex + 1) of
                  None \<Rightarrow> None
                | Some (l, reads) \<Rightarrow> Some (l, lowIndex # reads))
             else Some (lowIndex, [lowIndex]))
      else Some (lowIndex, []))"
  by pat_completeness auto
termination
  by (relation "measure (\<lambda>(bids, fin, pivot, lowIndex). fin + 1 - lowIndex)") auto

text \<open>
  \<open>hi_scan\<close> is the second inner loop. \<^verbatim>\<open>highIndex--\<close> on the value 0 wraps around to
  \<open>2 ^ 64 - 1\<close>. That value passes the test \<^verbatim>\<open>highIndex >= begin\<close> for every \<^verbatim>\<open>begin\<close>, so the
  next thing the loop does is read \<^verbatim>\<open>bids[18446744073709551615]\<close>, an index no vector has: the
  model gives \<open>None\<close> for the decrement at 0.
\<close>

function hi_scan :: "Bid list \<Rightarrow> nat \<Rightarrow> string \<Rightarrow> nat \<Rightarrow> (nat \<times> nat list) option" where
  "hi_scan bids beg pivot highIndex =
     (if highIndex \<ge> beg then
        (case read_at bids highIndex of
           None \<Rightarrow> None
         | Some b \<Rightarrow>
             if pivot < title b then
               (if highIndex = 0 then None
                else (case hi_scan bids beg pivot (highIndex - 1) of
                        None \<Rightarrow> None
                      | Some (h, reads) \<Rightarrow> Some (h, highIndex # reads)))
             else Some (highIndex, [highIndex]))
      else Some (highIndex, []))"
  by pat_completeness auto
termination
  by (relation "measure (\<lambda>(bids, beg, pivot, highIndex). highIndex)") auto

declare lo_scan.simps [simp del] hi_scan.simps [simp del]

lemma lo_scan_ge: "lo_scan bids fin pivot l = Some (r, reads) \<Longrightarrow> l \<le> r"
proof (induction bids fin pivot l arbitrary: r reads rule: lo_scan.induct)
  case (1 bids fin pivot l)
  from "1.prems" show ?case
    by (subst (asm) lo_scan.simps)
       (auto split: if_splits option.splits prod.splits dest!: "1.IH")
qed

lemma hi_scan_le: "hi_scan bids beg pivot h = Some (r, reads) \<Longrightarrow> r \<le> h"
proof (induction bids beg pivot h arbitrary: r reads rule: hi_scan.induct)
  case (1 bids beg pivot h)
  from "1.prems" show ?case
    by (subst (asm) hi_scan.simps)
       (auto split: if_splits option.splits prod.splits dest!: "1.IH")
qed

text \<open>
  \<open>part_loop\<close> is the loop \<^verbatim>\<open>while (true)\<close> from the cursors \<open>(lowIndex, highIndex)\<close>. Both scans
  move towards each other and the loop goes on only while \<open>hi > lo\<close>, which is why it terminates
  (and why neither \<open>lo + 1\<close> nor \<open>hi - 1\<close> after a swap can wrap around).
\<close>

function part_loop ::
  "Bid list \<Rightarrow> nat \<Rightarrow> nat \<Rightarrow> string \<Rightarrow> nat \<Rightarrow> nat \<Rightarrow> (Bid list \<times> nat \<times> nat list) option" where
  "part_loop bids beg fin pivot lowIndex highIndex =
     (case lo_scan bids fin pivot lowIndex of
        None \<Rightarrow> None
      | Some (lo, rl) \<Rightarrow>
          (case hi_scan bids beg pivot highIndex of
             None \<Rightarrow> None
           | Some (hi, rh) \<Rightarrow>
               if hi \<le> lo then Some (bids, hi, rl @ rh)
               else
                 (case swap_at bids lo hi of
                    None \<Rightarrow> None
                  | Some bids' \<Rightarrow>
                      (case part_loop bids' beg fin pivot (lo + 1) (hi - 1) of
                         None \<Rightarrow> None
                       | Some (out, p, rest) \<Rightarrow> Some (out, p, rl @ rh @ [lo, hi] @ rest)))))"
  by pat_completeness auto
termination
proof (relation "measure (\<lambda>(bids, beg, fin, pivot, lowIndex, highIndex). highIndex - lowIndex)")
  show "wf (measure (\<lambda>(bids, beg, fin, pivot, lowIndex, highIndex). highIndex - lowIndex))"
    by simp
next
  fix bids beg fin pivot lowIndex highIndex x2 lo rl x2a hi rh bids'
  assume "lo_scan bids fin pivot lowIndex = Some x2" "(lo, rl) = x2"
    "hi_scan bids beg pivot highIndex = Some x2a" "(hi, rh) = x2a" "\<not> hi \<le> lo"
  then have "lowIndex \<le> lo" "hi \<le> highIndex"
    using lo_scan_ge[of bids fin pivot lowIndex lo rl] hi_scan_le[of bids beg pivot highIndex hi rh]
    by auto
  with \<open>\<not> hi \<le> lo\<close>
  show "((bids', beg, fin, pivot, lo + 1, hi - 1), (bids, beg, fin, pivot, lowIndex, highIndex))
        \<in> measure (\<lambda>(bids, beg, fin, pivot, lowIndex, highIndex). highIndex - lowIndex)"
    by simp
qed

declare part_loop.simps [simp del]

text \<open>
  \<open>partition_run\<close> is the whole function with its access list; \<open>partition_bids\<close> forgets the list
  and is what \<^verbatim>\<open>quickSort\<close> calls (\<open>partition\<close> is a constant of the list library).
\<close>

definition partition_run :: "Bid list \<Rightarrow> nat \<Rightarrow> nat \<Rightarrow> (Bid list \<times> nat \<times> nat list) option" where
  "partition_run bids beg fin =
     (if beg \<ge> fin then Some (bids, beg, [])
      else
        (let middlePoint = beg + (fin - beg) div 2 in
         case read_at bids middlePoint of
           None \<Rightarrow> None
         | Some b \<Rightarrow>
             (case part_loop bids beg fin (title b) beg fin of
                None \<Rightarrow> None
              | Some (out, p, trace) \<Rightarrow> Some (out, p, middlePoint # trace))))"

definition partition_bids :: "Bid list \<Rightarrow> nat \<Rightarrow> nat \<Rightarrow> (Bid list \<times> nat) option" where
  "partition_bids bids beg fin = map_option (\<lambda>(out, p, trace). (out, p)) (partition_run bids beg fin)"

subsection \<open>The partition step of the original variant\<close>

text \<open>
  The original \<^verbatim>\<open>partition\<close> has neither the early return nor the two bound tests:
  \<^verbatim>\<open>
  size_t lowIndex = begin;
  size_t highIndex = end;
  size_t middlePoint = lowIndex + (highIndex - lowIndex) / 2;
  string pivot = bids[middlePoint].title;
  while (true) {
      while (bids[lowIndex].title < pivot) lowIndex++;
      while (pivot < bids[highIndex].title) highIndex--;
      if (highIndex <= lowIndex) return highIndex;
      swap(bids[lowIndex], bids[highIndex]);
      lowIndex++;
      highIndex--;
  }\<close>
  Here too the decrement of \<^verbatim>\<open>highIndex\<close> at 0 is followed at once by a read at \<open>2 ^ 64 - 1\<close>.
\<close>

function lo_scan_original :: "Bid list \<Rightarrow> string \<Rightarrow> nat \<Rightarrow> (nat \<times> nat list) option" where
  "lo_scan_original bids pivot lowIndex =
     (case read_at bids lowIndex of
        None \<Rightarrow> None
      | Some b \<Rightarrow>
          if title b < pivot then
            (case lo_scan_original bids pivot (lowIndex + 1) of
               None \<Rightarrow> None
             | Some (l, reads) \<Rightarrow> Some (l, lowIndex # reads))
          else Some (lowIndex, [lowIndex]))"
  by pat_completeness auto
termination
  by (relation "measure (\<lambda>(bids, pivot, lowIndex). length bids - lowIndex)")
     (auto simp: read_at_def split: if_splits)

function hi_scan_original :: "Bid list \<Rightarrow> string \<Rightarrow> nat \<Rightarrow> (nat \<times> nat list) option" where
  "hi_scan_original bids pivot highIndex =
     (case read_at bids highIndex of
        None \<Rightarrow> None
      | Some b \<Rightarrow>
          if pivot < title b then
            (if highIndex = 0 then None
             else (case hi_scan_original bids pivot (highIndex - 1) of
                     None \<Rightarrow> None
                   | Some (h, reads) \<Rightarrow> Some (h, highIndex # reads)))
          else Some (highIndex, [highIndex]))"
  by pat_completeness auto
termination
  by (relation "measure (\<lambda>(bids, pivot, highIndex). highIndex)") auto

declare lo_scan_original.simps [simp del] hi_scan_original.simps [simp del]

lemma lo_scan_original_ge: "lo_scan_original bids pivot l = Some (r, reads) \<Longrightarrow> l \<le> r"
proof (induction bids pivot l arbitrary: r reads rule: lo_scan_original.induct)
  case (1 bids pivot l)
  from "1.prems" show ?case
    by (subst (asm) lo_scan_original.simps)
       (auto split: if_splits option.splits prod.splits dest!: "1.IH")
qed

lemma hi_scan_original_le: "hi_scan_original bids pivot h = Some (r, reads) \<Longrightarrow> r \<le> h"
proof (induction bids pivot h arbitrary: r reads rule: hi_scan_original.induct)
  case (1 bids pivot h)
  from "1.prems" show ?case
    by (subst (asm) hi_scan_original.simps)
       (auto split: if_splits option.splits prod.splits dest!: "1.IH")
qed

function part_loop_original ::
  "Bid list \<Rightarrow> string \<Rightarrow> nat \<Rightarrow> nat \<Rightarrow> (Bid list \<times> nat \<times> nat list) option" where
  "part_loop_original bids pivot lowIndex highIndex =
     (case lo_scan_original bids pivot lowIndex of
        None \<Rightarrow> None
      | Some (lo, rl) \<Rightarrow>
          (case hi_scan_original bids pivot highIndex of
             None \<Rightarrow> None
           | Some (hi, rh) \<Rightarrow>
               if hi \<le> lo then Some (bids, hi, rl @ rh)
               else
                 (case swap_at bids lo hi of
                    None \<Rightarrow> None
                  | Some bids' \<Rightarrow>
                      (case part_loop_original bids' pivot (lo + 1) (hi - 1) of
                         None \<Rightarrow> None
                       | Some (out, p, rest) \<Rightarrow> Some (out, p, rl @ rh @ [lo, hi] @ rest)))))"
  by pat_completeness auto
termination
proof (relation "measure (\<lambda>(bids, pivot, lowIndex, highIndex). highIndex - lowIndex)")
  show "wf (measure (\<lambda>(bids, pivot, lowIndex, highIndex). highIndex - lowIndex))"
    by simp
next
  fix bids pivot lowIndex highIndex x2 lo rl x2a hi rh bids'
  assume "lo_scan_original bids pivot lowIndex = Some x2" "(lo, rl) = x2"
    "hi_scan_original bids pivot highIndex = Some x2a" "(hi, rh) = x2a" "\<not> hi \<le> lo"
  then have "lowIndex \<le> lo" "hi \<le> highIndex"
    using lo_scan_original_ge[of bids pivot lowIndex lo rl]
      hi_scan_original_le[of bids pivot highIndex hi rh]
    by auto
  with \<open>\<not> hi \<le> lo\<close>
  show "((bids', pivot, lo + 1, hi - 1), (bids, pivot, lowIndex, highIndex))
        \<in> measure (\<lambda>(bids, pivot, lowIndex, highIndex). highIndex - lowIndex)"
    by simp
qed

declare part_loop_original.simps [simp del]

text \<open>
  With \<^verbatim>\<open>begin > end\<close> the computation of \<^verbatim>\<open>middlePoint\<close> wraps around twice; the original
  \<^verbatim>\<open>quickSort\<close> never calls \<^verbatim>\<open>partition\<close> that way, but the function is defined for it.
\<close>

definition partition_original_run ::
  "Bid list \<Rightarrow> nat \<Rightarrow> nat \<Rightarrow> (Bid list \<times> nat \<times> nat list) option" where
  "partition_original_run bids beg fin =
     (let middlePoint =
            (if beg \<le> fin then beg + (fin - beg) div 2
             else (beg + size_sub fin beg div 2) mod 2 ^ 64) in
      case read_at bids middlePoint of
        None \<Rightarrow> None
      | Some b \<Rightarrow>
          (case part_loop_original bids (title b) beg fin of
             None \<Rightarrow> None
           | Some (out, p, trace) \<Rightarrow> Some (out, p, middlePoint # trace)))"

definition partition_original :: "Bid list \<Rightarrow> nat \<Rightarrow> nat \<Rightarrow> (Bid list \<times> nat) option" where
  "partition_original bids beg fin =
     map_option (\<lambda>(out, p, trace). (out, p)) (partition_original_run bids beg fin)"

subsection \<open>Scans under a sentinel\<close>

lemma lo_scan_sentinel:
  assumes "l \<le> k" "k \<le> fin" "k < length bids" "\<not> title (bids ! k) < pivot"
  shows "\<exists>r. lo_scan bids fin pivot l = Some (r, [l..<Suc r]) \<and>
           lo_scan_original bids pivot l = Some (r, [l..<Suc r]) \<and> l \<le> r \<and> r \<le> k \<and>
           (\<forall>j. l \<le> j \<and> j < r \<longrightarrow> title (bids ! j) < pivot) \<and> \<not> title (bids ! r) < pivot"
  using assms
proof (induction bids fin pivot l rule: lo_scan.induct)
  case (1 bids fin pivot l)
  have le: "l \<le> fin" and rd: "read_at bids l = Some (bids ! l)"
    using "1.prems" by (simp_all add: read_at_def)
  show ?case
  proof (cases "title (bids ! l) < pivot")
    case False
    then show ?thesis using le rd "1.prems"(1)
      by (subst lo_scan.simps, subst lo_scan_original.simps) auto
  next
    case True
    then have "l \<noteq> k" using "1.prems"(4) by auto
    then have lk: "l + 1 \<le> k" using "1.prems"(1) by simp
    from "1.IH"[OF le rd True lk "1.prems"(2,3,4)]
    obtain r where r: "lo_scan bids fin pivot (l + 1) = Some (r, [l + 1..<Suc r])"
      "lo_scan_original bids pivot (l + 1) = Some (r, [l + 1..<Suc r])" "l + 1 \<le> r" "r \<le> k"
      "\<forall>j. l + 1 \<le> j \<and> j < r \<longrightarrow> title (bids ! j) < pivot" "\<not> title (bids ! r) < pivot"
      by blast
    have up: "l # [l + 1..<Suc r] = [l..<Suc r]" using r(3) by (simp add: upt_conv_Cons)
    have a: "lo_scan bids fin pivot l = Some (r, [l..<Suc r])"
      using le rd True r(1) up by (subst lo_scan.simps) simp
    have b: "lo_scan_original bids pivot l = Some (r, [l..<Suc r])"
      using rd True r(2) up by (subst lo_scan_original.simps) simp
    have c: "\<forall>j. l \<le> j \<and> j < r \<longrightarrow> title (bids ! j) < pivot"
    proof (intro allI impI)
      fix j assume "l \<le> j \<and> j < r"
      then show "title (bids ! j) < pivot" using r(5) True by (cases "j = l") auto
    qed
    from a b c r(3,4,6) show ?thesis by auto
  qed
qed

lemma hi_scan_sentinel:
  assumes "k \<le> h" "beg \<le> k" "h < length bids" "\<not> pivot < title (bids ! k)"
  shows "\<exists>r. hi_scan bids beg pivot h = Some (r, rev [r..<Suc h]) \<and>
           hi_scan_original bids pivot h = Some (r, rev [r..<Suc h]) \<and> k \<le> r \<and> r \<le> h \<and>
           (\<forall>j. r < j \<and> j \<le> h \<longrightarrow> pivot < title (bids ! j)) \<and> \<not> pivot < title (bids ! r)"
  using assms
proof (induction bids beg pivot h rule: hi_scan.induct)
  case (1 bids beg pivot h)
  have ge: "beg \<le> h" and rd: "read_at bids h = Some (bids ! h)"
    using "1.prems" by (simp_all add: read_at_def)
  show ?case
  proof (cases "pivot < title (bids ! h)")
    case False
    then show ?thesis using ge rd "1.prems"(1)
      by (subst hi_scan.simps, subst hi_scan_original.simps) auto
  next
    case True
    then have "h \<noteq> k" using "1.prems"(4) by auto
    then have kh: "k \<le> h - 1" and h0: "h \<noteq> 0" using "1.prems"(1) by simp_all
    have hl: "h - 1 < length bids" using "1.prems"(3) by simp
    from "1.IH"[OF ge rd True h0 kh "1.prems"(2) hl "1.prems"(4)]
    obtain r where r: "hi_scan bids beg pivot (h - 1) = Some (r, rev [r..<Suc (h - 1)])"
      "hi_scan_original bids pivot (h - 1) = Some (r, rev [r..<Suc (h - 1)])" "k \<le> r" "r \<le> h - 1"
      "\<forall>j. r < j \<and> j \<le> h - 1 \<longrightarrow> pivot < title (bids ! j)" "\<not> pivot < title (bids ! r)"
      by blast
    have up: "h # rev [r..<Suc (h - 1)] = rev [r..<Suc h]" using r(4) h0 by simp
    have a: "hi_scan bids beg pivot h = Some (r, rev [r..<Suc h])"
      using ge rd True h0 r(1) up by (subst hi_scan.simps) simp
    have b: "hi_scan_original bids pivot h = Some (r, rev [r..<Suc h])"
      using rd True h0 r(2) up by (subst hi_scan_original.simps) simp
    have c: "\<forall>j. r < j \<and> j \<le> h \<longrightarrow> pivot < title (bids ! j)"
    proof (intro allI impI)
      fix j assume "r < j \<and> j \<le> h"
      then show "pivot < title (bids ! j)" using r(5) True by (cases "j = h") auto
    qed
    from a b c r(3,4,6) h0 show ?thesis by auto
  qed
qed

subsection \<open>The partition loop\<close>

text \<open>
  The invariant at the head of the loop: everything left of \<open>lo\<close> is at most the pivot, everything
  right of \<open>hi\<close> at least the pivot, and each scan has an element inside the range that stops it.
  In the first round that element is the pivot's own position; afterwards it is the element the
  last swap put there.
\<close>

definition part_inv :: "Bid list \<Rightarrow> nat \<Rightarrow> nat \<Rightarrow> string \<Rightarrow> nat \<Rightarrow> nat \<Rightarrow> bool" where
  "part_inv bids beg fin pivot lo hi \<longleftrightarrow>
     fin < length bids \<and> beg \<le> lo \<and> hi \<le> fin \<and>
     (\<forall>k. beg \<le> k \<and> k < lo \<longrightarrow> title (bids ! k) \<le> pivot) \<and>
     (\<forall>k. hi < k \<and> k \<le> fin \<longrightarrow> pivot \<le> title (bids ! k)) \<and>
     (\<exists>k. lo \<le> k \<and> k \<le> fin \<and> pivot \<le> title (bids ! k)) \<and>
     (\<exists>k. beg \<le> k \<and> k \<le> hi \<and> title (bids ! k) \<le> pivot)"

lemma part_step:
  assumes "part_inv bids beg fin pivot lo hi"
  obtains lo' hi' where
    "lo_scan bids fin pivot lo = Some (lo', [lo..<Suc lo'])"
    "lo_scan_original bids pivot lo = Some (lo', [lo..<Suc lo'])"
    "hi_scan bids beg pivot hi = Some (hi', rev [hi'..<Suc hi])"
    "hi_scan_original bids pivot hi = Some (hi', rev [hi'..<Suc hi])"
    "lo \<le> lo'" "lo' \<le> fin" "beg \<le> hi'" "hi' \<le> hi"
    "\<forall>j. beg \<le> j \<and> j < lo' \<longrightarrow> title (bids ! j) \<le> pivot"
    "\<forall>j. hi' < j \<and> j \<le> fin \<longrightarrow> pivot \<le> title (bids ! j)"
    "pivot \<le> title (bids ! lo')" "title (bids ! hi') \<le> pivot"
    "\<forall>k. lo \<le> k \<and> k \<le> fin \<and> pivot \<le> title (bids ! k) \<longrightarrow> lo' \<le> k"
proof -
  from assms have len: "fin < length bids" and b: "beg \<le> lo" "hi \<le> fin"
    and L: "\<forall>k. beg \<le> k \<and> k < lo \<longrightarrow> title (bids ! k) \<le> pivot"
    and H: "\<forall>k. hi < k \<and> k \<le> fin \<longrightarrow> pivot \<le> title (bids ! k)"
    by (simp_all add: part_inv_def)
  from assms obtain kl where kl: "lo \<le> kl" "kl \<le> fin" "pivot \<le> title (bids ! kl)"
    by (auto simp: part_inv_def)
  from assms obtain kh where kh: "beg \<le> kh" "kh \<le> hi" "title (bids ! kh) \<le> pivot"
    by (auto simp: part_inv_def)
  have "kl < length bids" "\<not> title (bids ! kl) < pivot" using kl len by auto
  from lo_scan_sentinel[OF kl(1,2) this]
  obtain lo' where lo': "lo_scan bids fin pivot lo = Some (lo', [lo..<Suc lo'])"
    "lo_scan_original bids pivot lo = Some (lo', [lo..<Suc lo'])" "lo \<le> lo'" "lo' \<le> kl"
    "\<forall>j. lo \<le> j \<and> j < lo' \<longrightarrow> title (bids ! j) < pivot" "\<not> title (bids ! lo') < pivot"
    by blast
  have "hi < length bids" "\<not> pivot < title (bids ! kh)" using kh b len by auto
  from hi_scan_sentinel[OF kh(2,1) this]
  obtain hi' where hi': "hi_scan bids beg pivot hi = Some (hi', rev [hi'..<Suc hi])"
    "hi_scan_original bids pivot hi = Some (hi', rev [hi'..<Suc hi])" "kh \<le> hi'" "hi' \<le> hi"
    "\<forall>j. hi' < j \<and> j \<le> hi \<longrightarrow> pivot < title (bids ! j)" "\<not> pivot < title (bids ! hi')"
    by blast
  have 1: "\<forall>j. beg \<le> j \<and> j < lo' \<longrightarrow> title (bids ! j) \<le> pivot"
  proof (intro allI impI)
    fix j assume j: "beg \<le> j \<and> j < lo'"
    show "title (bids ! j) \<le> pivot"
    proof (cases "j < lo")
      case True then show ?thesis using L j by simp
    next
      case False then show ?thesis using lo'(5) j by (simp add: less_imp_le)
    qed
  qed
  have 2: "\<forall>j. hi' < j \<and> j \<le> fin \<longrightarrow> pivot \<le> title (bids ! j)"
  proof (intro allI impI)
    fix j assume j: "hi' < j \<and> j \<le> fin"
    show "pivot \<le> title (bids ! j)"
    proof (cases "hi < j")
      case True then show ?thesis using H j by simp
    next
      case False then show ?thesis using hi'(5) j by (simp add: less_imp_le)
    qed
  qed
  have 3: "\<forall>k. lo \<le> k \<and> k \<le> fin \<and> pivot \<le> title (bids ! k) \<longrightarrow> lo' \<le> k"
  proof (intro allI impI)
    fix k assume k: "lo \<le> k \<and> k \<le> fin \<and> pivot \<le> title (bids ! k)"
    show "lo' \<le> k"
    proof (rule ccontr)
      assume "\<not> lo' \<le> k"
      then have "title (bids ! k) < pivot" using lo'(5) k by simp
      with k show False by auto
    qed
  qed
  show thesis
    using that[OF lo'(1,2) hi'(1,2) lo'(3) _ _ hi'(4) 1 2 _ _ 3] lo'(4,6) kl(2) kh(1) hi'(3,6)
    by (simp add: not_less)
qed

lemma part_inv_swap:
  assumes inv: "part_inv bids beg fin pivot lo hi"
    and lo': "lo \<le> lo'" "\<forall>j. beg \<le> j \<and> j < lo' \<longrightarrow> title (bids ! j) \<le> pivot"
      "pivot \<le> title (bids ! lo')"
    and hi': "hi' \<le> hi" "\<forall>j. hi' < j \<and> j \<le> fin \<longrightarrow> pivot \<le> title (bids ! j)"
      "title (bids ! hi') \<le> pivot"
    and lt: "lo' < hi'"
  shows "part_inv (bids[lo' := bids ! hi', hi' := bids ! lo']) beg fin pivot (lo' + 1) (hi' - 1)"
proof -
  let ?b = "bids[lo' := bids ! hi', hi' := bids ! lo']"
  from inv have len: "fin < length bids" and b: "beg \<le> lo" "hi \<le> fin"
    by (simp_all add: part_inv_def)
  have l1: "lo' < length bids" and h1: "hi' < length bids" using lt hi'(1) b len by simp_all
  have nth: "?b ! k = (if k = hi' then bids ! lo' else if k = lo' then bids ! hi' else bids ! k)" for k
    using l1 h1 by (simp add: nth_list_update)
  have A: "\<forall>k. beg \<le> k \<and> k < lo' + 1 \<longrightarrow> title (?b ! k) \<le> pivot"
    using lo'(2) hi'(3) lt by (auto simp: nth less_Suc_eq)
  have B: "\<forall>k. hi' - 1 < k \<and> k \<le> fin \<longrightarrow> pivot \<le> title (?b ! k)"
  proof (intro allI impI)
    fix k assume k: "hi' - 1 < k \<and> k \<le> fin"
    show "pivot \<le> title (?b ! k)"
    proof (cases "k = hi'")
      case True then show ?thesis using lo'(3) by (simp add: nth)
    next
      case False
      then have "hi' < k" using k by arith
      then show ?thesis using hi'(2) k lt by (simp add: nth)
    qed
  qed
  have C: "\<exists>k. lo' + 1 \<le> k \<and> k \<le> fin \<and> pivot \<le> title (?b ! k)"
    by (rule exI[of _ hi']) (use lt hi'(1) b lo'(3) in \<open>simp add: nth\<close>)
  have D: "\<exists>k. beg \<le> k \<and> k \<le> hi' - 1 \<and> title (?b ! k) \<le> pivot"
    by (rule exI[of _ lo']) (use lt lo'(1) b hi'(3) in \<open>auto simp: nth\<close>)
  show ?thesis
    unfolding part_inv_def using len b lo'(1) hi'(1) A B C D by simp
qed

lemma part_loop_spec:
  assumes "part_inv bids beg fin pivot lo hi"
  shows "\<exists>out p trace. part_loop bids beg fin pivot lo hi = Some (out, p, trace) \<and>
      part_loop_original bids pivot lo hi = Some (out, p, trace) \<and>
      length out = length bids \<and> mset out = mset bids \<and> beg \<le> p \<and> p \<le> fin \<and>
      (((\<exists>k. lo \<le> k \<and> k < fin \<and> pivot \<le> title (bids ! k)) \<or> hi < fin) \<longrightarrow> p < fin) \<and>
      (\<forall>k. beg \<le> k \<and> k \<le> p \<longrightarrow> title (out ! k) \<le> pivot) \<and>
      (\<forall>k. p < k \<and> k \<le> fin \<longrightarrow> pivot \<le> title (out ! k)) \<and>
      (\<forall>k. k < beg \<or> fin < k \<longrightarrow> out ! k = bids ! k) \<and> set trace \<subseteq> {beg..fin}"
  using assms
proof (induction bids beg fin pivot lo hi rule: part_loop.induct)
  case (1 bids beg fin pivot lo hi)
  from "1.prems" have len: "fin < length bids" and b: "beg \<le> lo" "hi \<le> fin"
    by (simp_all add: part_inv_def)
  from part_step[OF "1.prems"] obtain lo' hi' where
    st: "lo_scan bids fin pivot lo = Some (lo', [lo..<Suc lo'])"
    "lo_scan_original bids pivot lo = Some (lo', [lo..<Suc lo'])"
    "hi_scan bids beg pivot hi = Some (hi', rev [hi'..<Suc hi])"
    "hi_scan_original bids pivot hi = Some (hi', rev [hi'..<Suc hi])"
    "lo \<le> lo'" "lo' \<le> fin" "beg \<le> hi'" "hi' \<le> hi"
    "\<forall>j. beg \<le> j \<and> j < lo' \<longrightarrow> title (bids ! j) \<le> pivot"
    "\<forall>j. hi' < j \<and> j \<le> fin \<longrightarrow> pivot \<le> title (bids ! j)"
    "pivot \<le> title (bids ! lo')" "title (bids ! hi') \<le> pivot"
    "\<forall>k. lo \<le> k \<and> k \<le> fin \<and> pivot \<le> title (bids ! k) \<longrightarrow> lo' \<le> k"
    by blast
  have trs: "set ([lo..<Suc lo'] @ rev [hi'..<Suc hi]) \<subseteq> {beg..fin}"
    using b st(6,7) by auto
  show ?case
  proof (cases "hi' \<le> lo'")
    case True
    have pl: "part_loop bids beg fin pivot lo hi = Some (bids, hi', [lo..<Suc lo'] @ rev [hi'..<Suc hi])"
      using st(1,3) True by (subst part_loop.simps) simp
    have po: "part_loop_original bids pivot lo hi = Some (bids, hi', [lo..<Suc lo'] @ rev [hi'..<Suc hi])"
      using st(2,4) True by (subst part_loop_original.simps) simp
    have strict: "((\<exists>k. lo \<le> k \<and> k < fin \<and> pivot \<le> title (bids ! k)) \<or> hi < fin) \<longrightarrow> hi' < fin"
    proof
      assume "(\<exists>k. lo \<le> k \<and> k < fin \<and> pivot \<le> title (bids ! k)) \<or> hi < fin"
      then show "hi' < fin"
      proof
        assume "\<exists>k. lo \<le> k \<and> k < fin \<and> pivot \<le> title (bids ! k)"
        then obtain k where k: "lo \<le> k" "k < fin" "pivot \<le> title (bids ! k)" by blast
        then have "lo' \<le> k" using st(13) by simp
        with True k(2) show ?thesis by simp
      next
        assume "hi < fin" with st(8) show ?thesis by simp
      qed
    qed
    have le: "\<forall>k. beg \<le> k \<and> k \<le> hi' \<longrightarrow> title (bids ! k) \<le> pivot"
    proof (intro allI impI)
      fix k assume k: "beg \<le> k \<and> k \<le> hi'"
      show "title (bids ! k) \<le> pivot"
      proof (cases "k < lo'")
        case True then show ?thesis using st(9) k by simp
      next
        case False
        with k True have "k = hi'" by simp
        then show ?thesis using st(12) by simp
      qed
    qed
    from pl po strict le st(7,8,10) b(2) trs show ?thesis by simp
  next
    case False
    then have lt: "lo' < hi'" by simp
    define bids' where "bids' = bids[lo' := bids ! hi', hi' := bids ! lo']"
    have l1: "lo' < length bids" and h1: "hi' < length bids" using lt st(8) b len by simp_all
    have sw: "swap_at bids lo' hi' = Some bids'" using l1 h1 by (simp add: swap_at_def bids'_def)
    have inv': "part_inv bids' beg fin pivot (lo' + 1) (hi' - 1)"
      unfolding bids'_def by (rule part_inv_swap[OF "1.prems" st(5,9,11,8,10,12) lt])
    have hf: "hi' - 1 < fin" using lt st(8) b(2) by simp
    from "1.IH"[OF st(1) refl st(3) refl False sw inv'] hf
    obtain out p rest where r: "part_loop bids' beg fin pivot (lo' + 1) (hi' - 1) = Some (out, p, rest)"
      "part_loop_original bids' pivot (lo' + 1) (hi' - 1) = Some (out, p, rest)"
      "length out = length bids'" "mset out = mset bids'" "beg \<le> p" "p \<le> fin" "p < fin"
      "\<forall>k. beg \<le> k \<and> k \<le> p \<longrightarrow> title (out ! k) \<le> pivot"
      "\<forall>k. p < k \<and> k \<le> fin \<longrightarrow> pivot \<le> title (out ! k)"
      "\<forall>k. k < beg \<or> fin < k \<longrightarrow> out ! k = bids' ! k" "set rest \<subseteq> {beg..fin}"
      by auto
    let ?tr = "[lo..<Suc lo'] @ rev [hi'..<Suc hi] @ [lo', hi'] @ rest"
    have pl: "part_loop bids beg fin pivot lo hi = Some (out, p, ?tr)"
      using st(1,3) False sw r(1) by (subst part_loop.simps) simp
    have po: "part_loop_original bids pivot lo hi = Some (out, p, ?tr)"
      using st(2,4) False sw r(2) by (subst part_loop_original.simps) simp
    have ln: "length out = length bids" using r(3) by (simp add: bids'_def)
    have ms: "mset out = mset bids" using r(4) mset_swap_upd[OF l1 h1] by (simp add: bids'_def)
    have fr: "\<forall>k. k < beg \<or> fin < k \<longrightarrow> out ! k = bids ! k"
    proof (intro allI impI)
      fix k assume k: "k < beg \<or> fin < k"
      then have "k \<noteq> lo'" "k \<noteq> hi'" using st(5,6,7,8) b lt by auto
      then have "bids' ! k = bids ! k" by (simp add: bids'_def)
      with r(10) k show "out ! k = bids ! k" by auto
    qed
    have tr: "set ?tr \<subseteq> {beg..fin}"
      using trs r(11) st(5,6,7,8) b lt by auto
    from pl po ln ms r(5,6,7,8,9) fr tr show ?thesis by simp
  qed
qed

subsection \<open>What the partition step establishes\<close>

lemma partition_run_spec:
  assumes "beg < fin" "fin < length bids"
  shows "\<exists>out p trace. partition_run bids beg fin = Some (out, p, trace) \<and>
      partition_original_run bids beg fin = Some (out, p, trace) \<and>
      length out = length bids \<and> mset out = mset bids \<and> beg \<le> p \<and> p < fin \<and>
      (\<exists>pivot. (\<forall>k. beg \<le> k \<and> k \<le> p \<longrightarrow> title (out ! k) \<le> pivot) \<and>
               (\<forall>k. p < k \<and> k \<le> fin \<longrightarrow> pivot \<le> title (out ! k))) \<and>
      (\<forall>k. k < beg \<or> fin < k \<longrightarrow> out ! k = bids ! k) \<and> set trace \<subseteq> {beg..fin}"
proof -
  define m where "m = beg + (fin - beg) div 2"
  define pivot where "pivot = title (bids ! m)"
  have m: "beg \<le> m" "m < fin" using assms(1) by (simp_all add: m_def)
  have rd: "read_at bids m = Some (bids ! m)" using m assms(2) by (simp add: read_at_def)
  have inv: "part_inv bids beg fin pivot beg fin"
    unfolding part_inv_def using assms m by (auto simp: pivot_def intro: exI[of _ m])
  from part_loop_spec[OF inv] m
  obtain out p trace where r: "part_loop bids beg fin pivot beg fin = Some (out, p, trace)"
      "part_loop_original bids pivot beg fin = Some (out, p, trace)"
      "length out = length bids" "mset out = mset bids" "beg \<le> p" "p \<le> fin"
      "(\<exists>k. beg \<le> k \<and> k < fin \<and> pivot \<le> title (bids ! k)) \<or> fin < fin \<longrightarrow> p < fin"
      "\<forall>k. beg \<le> k \<and> k \<le> p \<longrightarrow> title (out ! k) \<le> pivot"
      "\<forall>k. p < k \<and> k \<le> fin \<longrightarrow> pivot \<le> title (out ! k)"
      "\<forall>k. k < beg \<or> fin < k \<longrightarrow> out ! k = bids ! k" "set trace \<subseteq> {beg..fin}"
    by blast
  have pf: "p < fin" using r(7) m by (auto simp: pivot_def)
  have a: "partition_run bids beg fin = Some (out, p, m # trace)"
    using assms(1) rd r(1) by (simp add: partition_run_def m_def[symmetric] pivot_def[symmetric])
  have b: "partition_original_run bids beg fin = Some (out, p, m # trace)"
    using assms(1) rd r(2)
    by (simp add: partition_original_run_def m_def[symmetric] pivot_def[symmetric])
  have tr: "set (m # trace) \<subseteq> {beg..fin}" using r(11) m by simp
  from a b r(3,4,5) pf r(8,9,10) tr show ?thesis by blast
qed

lemma part_loop_Some_valid:
  "part_loop bids beg fin pivot beg fin = Some r \<Longrightarrow> beg \<le> fin \<Longrightarrow> fin < length bids"
  by (subst (asm) part_loop.simps, subst (asm) hi_scan.simps)
     (auto simp: read_at_def split: option.splits if_splits)

lemma part_loop_original_Some_valid:
  "part_loop_original bids pivot beg fin = Some r \<Longrightarrow> fin < length bids"
  by (subst (asm) part_loop_original.simps, subst (asm) hi_scan_original.simps)
     (auto simp: read_at_def split: option.splits if_splits)

lemma partition_run_Some_valid:
  "partition_run bids beg fin = Some r \<Longrightarrow> beg < fin \<Longrightarrow> fin < length bids"
  by (auto simp: partition_run_def Let_def split: option.splits dest!: part_loop_Some_valid)

lemma partition_original_run_Some_valid:
  "partition_original_run bids beg fin = Some r \<Longrightarrow> fin < length bids"
  by (auto simp: partition_original_run_def Let_def split: option.splits if_splits
      dest!: part_loop_original_Some_valid)

lemma partition_bids_result:
  assumes "partition_bids bids beg fin = Some (out, p)" "beg < fin"
  shows "beg \<le> p \<and> p < fin \<and> length out = length bids \<and> fin < length bids"
proof -
  from assms(1) obtain trace where r: "partition_run bids beg fin = Some (out, p, trace)"
    by (auto simp: partition_bids_def)
  from partition_run_Some_valid[OF r assms(2)] have v: "fin < length bids" .
  from partition_run_spec[OF assms(2) v] r v show ?thesis by auto
qed

lemma partition_original_result:
  assumes "partition_original bids beg fin = Some (out, p)" "beg < fin"
  shows "beg \<le> p \<and> p < fin \<and> length out = length bids \<and> fin < length bids"
proof -
  from assms(1) obtain trace where r: "partition_original_run bids beg fin = Some (out, p, trace)"
    by (auto simp: partition_original_def)
  from partition_original_run_Some_valid[OF r] have v: "fin < length bids" .
  from partition_run_spec[OF assms(2) v] r v show ?thesis by auto
qed

subsection \<open>The two quick sorts\<close>

text \<open>
  \<^verbatim>\<open>BidSorter::quickSort\<close>:
  \<^verbatim>\<open>
  if (bids.empty() || end <= begin) return;
  size_t pivotIndex = partition(bids, begin, end);
  if (pivotIndex > begin) quickSort(bids, begin, pivotIndex);
  if (pivotIndex < end) quickSort(bids, pivotIndex + 1, end);\<close>
  The recursion terminates because a partition step that returns on \<open>beg < fin\<close> returns a split
  point in \<open>[beg, fin)\<close>, whatever the vector and the bounds are.
\<close>

function quickSort :: "Bid list \<Rightarrow> nat \<Rightarrow> nat \<Rightarrow> Bid list option" where
  "quickSort bids beg fin =
     (if bids = [] \<or> fin \<le> beg then Some bids
      else
        (case partition_bids bids beg fin of
           None \<Rightarrow> None
         | Some (bids1, pivotIndex) \<Rightarrow>
             (case (if pivotIndex > beg then quickSort bids1 beg pivotIndex else Some bids1) of
                None \<Rightarrow> None
              | Some bids2 \<Rightarrow>
                  if pivotIndex < fin then quickSort bids2 (pivotIndex + 1) fin else Some bids2)))"
  by pat_completeness auto
termination
proof (relation "measure (\<lambda>(bids, beg, fin). fin - beg)")
  show "wf (measure (\<lambda>(bids, beg, fin). fin - beg))" by simp
next
  fix bids :: "Bid list" and beg fin x2 bids1 pivotIndex
  assume "\<not> (bids = [] \<or> fin \<le> beg)" "partition_bids bids beg fin = Some x2"
    "(bids1, pivotIndex) = x2" "beg < pivotIndex"
  then show "((bids1, beg, pivotIndex), (bids, beg, fin)) \<in> measure (\<lambda>(bids, beg, fin). fin - beg)"
    using partition_bids_result[of bids beg fin bids1 pivotIndex] by auto
next
  fix bids :: "Bid list" and beg fin x2 bids1 pivotIndex bids2
  assume "\<not> (bids = [] \<or> fin \<le> beg)" "partition_bids bids beg fin = Some x2"
    "(bids1, pivotIndex) = x2" "pivotIndex < fin"
  then show "((bids2, pivotIndex + 1, fin), (bids, beg, fin)) \<in> measure (\<lambda>(bids, beg, fin). fin - beg)"
    using partition_bids_result[of bids beg fin bids1 pivotIndex] by auto
qed

text \<open>
  The original \<^verbatim>\<open>quickSort\<close>:
  \<^verbatim>\<open>
  if (end <= begin) return;
  size_t mid = 0;
  mid = partition(bids, begin, end);
  quickSort(bids, begin, mid);
  quickSort(bids, mid + 1, end);\<close>
\<close>

function quickSort_original :: "Bid list \<Rightarrow> nat \<Rightarrow> nat \<Rightarrow> Bid list option" where
  "quickSort_original bids beg fin =
     (if fin \<le> beg then Some bids
      else
        (case partition_original bids beg fin of
           None \<Rightarrow> None
         | Some (bids1, mid) \<Rightarrow>
             (case quickSort_original bids1 beg mid of
                None \<Rightarrow> None
              | Some bids2 \<Rightarrow> quickSort_original bids2 (mid + 1) fin)))"
  by pat_completeness auto
termination
proof (relation "measure (\<lambda>(bids, beg, fin). fin - beg)")
  show "wf (measure (\<lambda>(bids, beg, fin). fin - beg))" by simp
next
  fix bids :: "Bid list" and beg fin x2 bids1 mid
  assume "\<not> fin \<le> beg" "partition_original bids beg fin = Some x2" "(bids1, mid) = x2"
  then show "((bids1, beg, mid), (bids, beg, fin)) \<in> measure (\<lambda>(bids, beg, fin). fin - beg)"
    using partition_original_result[of bids beg fin bids1 mid] by auto
next
  fix bids :: "Bid list" and beg fin x2 bids1 mid bids2
  assume "\<not> fin \<le> beg" "partition_original bids beg fin = Some x2" "(bids1, mid) = x2"
  then show "((bids2, mid + 1, fin), (bids, beg, fin)) \<in> measure (\<lambda>(bids, beg, fin). fin - beg)"
    using partition_original_result[of bids beg fin bids1 mid] by auto
qed

declare quickSort.simps [simp del] quickSort_original.simps [simp del]

subsection \<open>Correctness of quick sort\<close>

lemma quickSort_spec:
  assumes "fin < length bids"
  shows "\<exists>out. quickSort bids beg fin = Some out \<and> quickSort_original bids beg fin = Some out \<and>
      length out = length bids \<and> mset out = mset bids \<and>
      (\<forall>k. k < beg \<or> fin < k \<longrightarrow> out ! k = bids ! k) \<and>
      (\<forall>a b. beg \<le> a \<and> a \<le> b \<and> b \<le> fin \<longrightarrow> title (out ! a) \<le> title (out ! b))"
  using assms
proof (induction bids beg fin rule: quickSort.induct)
  case (1 bids beg fin)
  show ?case
  proof (cases "fin \<le> beg")
    case True
    have "\<forall>a b. beg \<le> a \<and> a \<le> b \<and> b \<le> fin \<longrightarrow> title (bids ! a) \<le> title (bids ! b)"
    proof (intro allI impI)
      fix a b assume "beg \<le> a \<and> a \<le> b \<and> b \<le> fin"
      with True have "a = b" by simp
      then show "title (bids ! a) \<le> title (bids ! b)" by simp
    qed
    with True show ?thesis
      by (subst quickSort.simps, subst quickSort_original.simps) simp
  next
    case False
    then have lt: "beg < fin" by simp
    have ne: "\<not> (bids = [] \<or> fin \<le> beg)" using False "1.prems" by auto
    from partition_run_spec[OF lt "1.prems"]
    obtain b1 p trace pivot where pr: "partition_run bids beg fin = Some (b1, p, trace)"
      "partition_original_run bids beg fin = Some (b1, p, trace)"
      "length b1 = length bids" "mset b1 = mset bids" "beg \<le> p" "p < fin"
      "\<forall>k. beg \<le> k \<and> k \<le> p \<longrightarrow> title (b1 ! k) \<le> pivot"
      "\<forall>k. p < k \<and> k \<le> fin \<longrightarrow> pivot \<le> title (b1 ! k)"
      "\<forall>k. k < beg \<or> fin < k \<longrightarrow> b1 ! k = bids ! k"
      by blast
    have pb: "partition_bids bids beg fin = Some (b1, p)" using pr(1) by (simp add: partition_bids_def)
    have po: "partition_original bids beg fin = Some (b1, p)"
      using pr(2) by (simp add: partition_original_def)
    have pl1: "p < length b1" using pr(3,6) "1.prems" by simp
    \<comment> \<open>the low part\<close>
    have "\<exists>b2. (if p > beg then quickSort b1 beg p else Some b1) = Some b2 \<and>
        quickSort_original b1 beg p = Some b2 \<and> length b2 = length b1 \<and> mset b2 = mset b1 \<and>
        (\<forall>k. k < beg \<or> p < k \<longrightarrow> b2 ! k = b1 ! k) \<and>
        (\<forall>a b. beg \<le> a \<and> a \<le> b \<and> b \<le> p \<longrightarrow> title (b2 ! a) \<le> title (b2 ! b))"
    proof (cases "p > beg")
      case True
      from "1.IH"(1)[OF ne pb refl True pl1] True show ?thesis by simp
    next
      case False
      then have pe: "p = beg" using pr(5) by simp
      have "\<forall>a b. beg \<le> a \<and> a \<le> b \<and> b \<le> p \<longrightarrow> title (b1 ! a) \<le> title (b1 ! b)"
      proof (intro allI impI)
        fix a b assume "beg \<le> a \<and> a \<le> b \<and> b \<le> p"
        with pe have "a = b" by simp
        then show "title (b1 ! a) \<le> title (b1 ! b)" by simp
      qed
      then show ?thesis using pe by (subst quickSort_original.simps) simp
    qed
    then obtain b2 where q1: "(if p > beg then quickSort b1 beg p else Some b1) = Some b2"
      "quickSort_original b1 beg p = Some b2" "length b2 = length b1" "mset b2 = mset b1"
      "\<forall>k. k < beg \<or> p < k \<longrightarrow> b2 ! k = b1 ! k"
      "\<forall>a b. beg \<le> a \<and> a \<le> b \<and> b \<le> p \<longrightarrow> title (b2 ! a) \<le> title (b2 ! b)"
      by blast
    have fl2: "fin < length b2" using q1(3) pr(3) "1.prems" by simp
    from "1.IH"(2)[OF ne pb refl q1(1) pr(6) fl2]
    obtain out where q2: "quickSort b2 (p + 1) fin = Some out"
      "quickSort_original b2 (p + 1) fin = Some out" "length out = length b2" "mset out = mset b2"
      "\<forall>k. k < p + 1 \<or> fin < k \<longrightarrow> out ! k = b2 ! k"
      "\<forall>a b. p + 1 \<le> a \<and> a \<le> b \<and> b \<le> fin \<longrightarrow> title (out ! a) \<le> title (out ! b)"
      by blast
    have r1: "quickSort bids beg fin = Some out"
      using ne pb q1(1) pr(6) q2(1) by (subst quickSort.simps) (simp del: One_nat_def)
    have r2: "quickSort_original bids beg fin = Some out"
      using False po q1(2) q2(2) by (subst quickSort_original.simps) simp
    have ln: "length out = length bids" using q2(3) q1(3) pr(3) by simp
    have ms: "mset out = mset bids" using q2(4) q1(4) pr(4) by simp
    have fr: "\<forall>k. k < beg \<or> fin < k \<longrightarrow> out ! k = bids ! k"
    proof (intro allI impI)
      fix k assume k: "k < beg \<or> fin < k"
      then have "out ! k = b2 ! k" using q2(5) pr(5) by auto
      also have "\<dots> = b1 ! k" using q1(5) k pr(6) by auto
      also have "\<dots> = bids ! k" using pr(9) k by auto
      finally show "out ! k = bids ! k" .
    qed
    \<comment> \<open>bounds of the two parts survive the recursive calls\<close>
    have lo_b2: "title (b2 ! k) \<le> pivot" if "beg \<le> k" "k \<le> p" for k
      by (rule segment_transfer[OF q1(3,4,5) pl1, where P = "\<lambda>x. title x \<le> pivot"])
         (use pr(7) that in auto)
    have hi_b2: "pivot \<le> title (b2 ! k)" if "p < k" "k \<le> fin" for k
      using q1(5) pr(8) that by auto
    have lo_out: "title (out ! k) \<le> pivot" if "beg \<le> k" "k \<le> p" for k
      using q2(5) lo_b2 that by auto
    have hi_out: "pivot \<le> title (out ! k)" if "p < k" "k \<le> fin" for k
      by (rule segment_transfer[OF q2(3,4,5) fl2, where P = "\<lambda>x. pivot \<le> title x"])
         (use hi_b2 that in auto)
    have so: "\<forall>a b. beg \<le> a \<and> a \<le> b \<and> b \<le> fin \<longrightarrow> title (out ! a) \<le> title (out ! b)"
    proof (intro allI impI)
      fix a b assume h: "beg \<le> a \<and> a \<le> b \<and> b \<le> fin"
      consider "b \<le> p" | "p < a" | "a \<le> p" "p < b" by linarith
      then show "title (out ! a) \<le> title (out ! b)"
      proof cases
        case 1
        then have "out ! a = b2 ! a" "out ! b = b2 ! b" using q2(5) h by auto
        then show ?thesis using q1(6) h 1 by simp
      next
        case 2
        then show ?thesis using q2(6) h by simp
      next
        case 3
        then have "title (out ! a) \<le> pivot" "pivot \<le> title (out ! b)"
          using lo_out[of a] hi_out[of b] h by auto
        then show ?thesis by (rule order_trans)
      qed
    qed
    from r1 r2 ln ms fr so show ?thesis by blast
  qed
qed

lemma partition_original_run_single:
  assumes "beg < length bids"
  shows "\<exists>out trace. partition_original_run bids beg beg = Some (out, beg, trace) \<and>
           set trace \<subseteq> {beg..beg}"
proof -
  define pivot where "pivot = title (bids ! beg)"
  have rd: "read_at bids beg = Some (bids ! beg)" using assms by (simp add: read_at_def)
  have inv: "part_inv bids beg beg pivot beg beg"
    unfolding part_inv_def using assms by (auto simp: pivot_def)
  from part_loop_spec[OF inv]
  obtain out p trace where r: "part_loop_original bids pivot beg beg = Some (out, p, trace)"
    "set trace \<subseteq> {beg..beg}" "beg \<le> p" "p \<le> beg" by blast
  have "p = beg" using r(3,4) by simp
  with r(1) have "part_loop_original bids (title (bids ! beg)) beg beg = Some (out, beg, trace)"
    by (simp add: pivot_def)
  then have "partition_original_run bids beg beg = Some (out, beg, beg # trace)"
    using rd by (simp add: partition_original_run_def)
  with r(2) show ?thesis by simp
qed

lemma quickSort_full:
  "\<exists>out. quickSort bids 0 (size_sub (length bids) 1) = Some out \<and> length out = length bids \<and>
     mset out = mset bids \<and> sorted (map title out)"
proof (cases "bids = []")
  case True
  then show ?thesis by (subst quickSort.simps) simp
next
  case False
  then have n0: "0 < length bids" by simp
  then have fin: "length bids - 1 < length bids" by simp
  from quickSort_spec[OF fin, of 0]
  obtain out where out: "quickSort bids 0 (length bids - 1) = Some out" "length out = length bids"
    "mset out = mset bids"
    "\<forall>a b. 0 \<le> a \<and> a \<le> b \<and> b \<le> length bids - 1 \<longrightarrow> title (out ! a) \<le> title (out ! b)"
    by blast
  have "sorted (map title out)"
    unfolding sorted_iff_nth_mono using out(2,4) by (auto simp: less_eq_Suc_le)
  then show ?thesis using out(1,2,3) size_sub_1[OF n0] by simp
qed

section \<open>Merge sort\<close>

text \<open>
  \<^verbatim>\<open>BidSorter::merge\<close> starts by copying the two runs,
  \<^verbatim>\<open>
  vector<Bid> leftArray(bids.begin() + left, bids.begin() + mid + 1);
  vector<Bid> rightArray(bids.begin() + mid + 1, bids.begin() + right + 1);\<close>
  The constructor from an iterator range requires the range to be valid: \<open>copy_range\<close> is \<open>None\<close>
  when the first iterator lies behind the second or the second behind the end of the vector.
\<close>

definition copy_range :: "Bid list \<Rightarrow> nat \<Rightarrow> nat \<Rightarrow> Bid list option" where
  "copy_range bids first lst =
     (if first \<le> lst \<and> lst \<le> length bids then Some (take (lst - first) (drop first bids))
      else None)"

text \<open>
  The three loops of \<^verbatim>\<open>merge\<close>, with \<^verbatim>\<open>i = 0, j = 0, k = left\<close> at the start:
  \<^verbatim>\<open>
  while (i < leftArray.size() && j < rightArray.size()) {
      if (leftArray[i].title <= rightArray[j].title) { bids[k] = leftArray[i]; i++; }
      else { bids[k] = rightArray[j]; j++; }
      k++;
  }
  while (i < leftArray.size()) { bids[k] = leftArray[i]; i++; k++; }
  while (j < rightArray.size()) { bids[k] = rightArray[j]; j++; k++; }\<close>
  \<open>merge_both\<close> is the first loop, \<open>copy_rest\<close> the second and, with the other array, the third.
  The reads of \<^verbatim>\<open>leftArray\<close> and \<^verbatim>\<open>rightArray\<close> stand under the test of the index against the
  size of that very array; the stores into \<^verbatim>\<open>bids\<close> are checked.
\<close>

function merge_both ::
  "Bid list \<Rightarrow> Bid list \<Rightarrow> Bid list \<Rightarrow> nat \<Rightarrow> nat \<Rightarrow> nat \<Rightarrow> (Bid list \<times> nat \<times> nat \<times> nat) option" where
  "merge_both bids leftArray rightArray i j k =
     (if i < length leftArray \<and> j < length rightArray then
        (if title (leftArray ! i) \<le> title (rightArray ! j) then
           (case store_at bids k (leftArray ! i) of
              None \<Rightarrow> None
            | Some bids' \<Rightarrow> merge_both bids' leftArray rightArray (i + 1) j (k + 1))
         else
           (case store_at bids k (rightArray ! j) of
              None \<Rightarrow> None
            | Some bids' \<Rightarrow> merge_both bids' leftArray rightArray i (j + 1) (k + 1)))
      else Some (bids, i, j, k))"
  by pat_completeness auto
termination
  by (relation "measure (\<lambda>(bids, leftArray, rightArray, i, j, k).
        (length leftArray - i) + (length rightArray - j))") auto

function copy_rest :: "Bid list \<Rightarrow> Bid list \<Rightarrow> nat \<Rightarrow> nat \<Rightarrow> (Bid list \<times> nat) option" where
  "copy_rest bids arr i k =
     (if i < length arr then
        (case store_at bids k (arr ! i) of
           None \<Rightarrow> None
         | Some bids' \<Rightarrow> copy_rest bids' arr (i + 1) (k + 1))
      else Some (bids, k))"
  by pat_completeness auto
termination
  by (relation "measure (\<lambda>(bids, arr, i, k). length arr - i)") auto

definition merge :: "Bid list \<Rightarrow> nat \<Rightarrow> nat \<Rightarrow> nat \<Rightarrow> Bid list option" where
  "merge bids left mid right =
     (case copy_range bids left (mid + 1) of
        None \<Rightarrow> None
      | Some leftArray \<Rightarrow>
          (case copy_range bids (mid + 1) (right + 1) of
             None \<Rightarrow> None
           | Some rightArray \<Rightarrow>
               (case merge_both bids leftArray rightArray 0 0 left of
                  None \<Rightarrow> None
                | Some (bids1, i, j, k) \<Rightarrow>
                    (case copy_rest bids1 leftArray i k of
                       None \<Rightarrow> None
                     | Some (bids2, k2) \<Rightarrow>
                         (case copy_rest bids2 rightArray j k2 of
                            None \<Rightarrow> None
                          | Some (bids3, k3) \<Rightarrow> Some bids3)))))"

text \<open>
  \<^verbatim>\<open>BidSorter::mergeSort\<close>:
  \<^verbatim>\<open>
  if (bids.empty() || left >= right) return;
  size_t mid = left + (right - left) / 2;
  mergeSort(bids, left, mid);
  mergeSort(bids, mid + 1, right);
  merge(bids, left, mid, right);\<close>
\<close>

function mergeSort :: "Bid list \<Rightarrow> nat \<Rightarrow> nat \<Rightarrow> Bid list option" where
  "mergeSort bids left right =
     (if bids = [] \<or> left \<ge> right then Some bids
      else
        (let mid = left + (right - left) div 2 in
         case mergeSort bids left mid of
           None \<Rightarrow> None
         | Some bids1 \<Rightarrow>
             (case mergeSort bids1 (mid + 1) right of
                None \<Rightarrow> None
              | Some bids2 \<Rightarrow> merge bids2 left mid right)))"
  by pat_completeness auto
termination
  by (relation "measure (\<lambda>(bids, left, right). right - left)") auto

subsection \<open>Merging as a function on lists\<close>

text \<open>
  \<open>merge_lists\<close> is not part of the program: it is the list that the three loops of \<^verbatim>\<open>merge\<close>
  write, used to state what they do. On a tie it takes the element of the left list.
\<close>

declare merge_both.simps [simp del] copy_rest.simps [simp del] mergeSort.simps [simp del]

fun merge_lists :: "Bid list \<Rightarrow> Bid list \<Rightarrow> Bid list" where
  "merge_lists [] ys = ys"
| "merge_lists xs [] = xs"
| "merge_lists (x # xs) (y # ys) =
     (if title x \<le> title y then x # merge_lists xs (y # ys) else y # merge_lists (x # xs) ys)"

lemma merge_lists_Nil2 [simp]: "merge_lists xs [] = xs"
  by (cases xs) simp_all

lemma mset_merge_lists: "mset (merge_lists xs ys) = mset xs + mset ys"
  by (induction xs ys rule: merge_lists.induct) auto

lemma set_merge_lists: "set (merge_lists xs ys) = set xs \<union> set ys"
  by (induction xs ys rule: merge_lists.induct) auto

lemma sorted_merge_lists:
  "sorted (map title xs) \<Longrightarrow> sorted (map title ys) \<Longrightarrow> sorted (map title (merge_lists xs ys))"
  by (induction xs ys rule: merge_lists.induct) (auto simp: set_merge_lists)

lemma filter_merge_lists:
  "sorted (map title xs) \<Longrightarrow> sorted (map title ys) \<Longrightarrow>
   filter (\<lambda>b. title b = t) (merge_lists xs ys) =
   filter (\<lambda>b. title b = t) xs @ filter (\<lambda>b. title b = t) ys"
proof (induction xs ys rule: merge_lists.induct)
  case (3 x xs y ys)
  show ?case
  proof (cases "title x \<le> title y")
    case True
    with 3 show ?thesis by simp
  next
    case False
    have "filter (\<lambda>b. title b = title y) (x # xs) = []"
      using False "3.prems"(1) by (auto simp: filter_empty_conv)
    with False 3 show ?thesis by auto
  qed
qed simp_all

lemma merge_lists_sort_key:
  "merge_lists (sort_key title xs) (sort_key title ys) = sort_key title (xs @ ys)"
proof (rule properties_for_sort_key[symmetric])
  show "mset (merge_lists (sort_key title xs) (sort_key title ys)) = mset (xs @ ys)"
    by (simp add: mset_merge_lists)
  show "sorted (map title (merge_lists (sort_key title xs) (sort_key title ys)))"
    by (simp add: sorted_merge_lists)
  fix k assume "k \<in> set (merge_lists (sort_key title xs) (sort_key title ys))"
  have "filter (\<lambda>x. title x = title k) (merge_lists (sort_key title xs) (sort_key title ys)) =
        filter (\<lambda>x. title x = title k) (xs @ ys)"
    by (simp add: filter_merge_lists sort_key_stable)
  then show "filter (\<lambda>x. title k = title x) (merge_lists (sort_key title xs) (sort_key title ys)) =
        filter (\<lambda>x. title k = title x) (xs @ ys)"
    by (simp add: eq_commute)
qed

subsection \<open>The loops of merge write the merged list\<close>

text \<open>
  The array is split as \<open>P @ W @ S\<close>: \<open>P\<close> are the positions below \<open>k\<close>, \<open>W\<close> the positions the
  loops are still to overwrite.
\<close>

lemma store_at_append:
  "store_at (P @ w # W) (length P) v = Some (P @ v # W)"
  by (simp add: store_at_def list_update_append)

lemma copy_range_append:
  "copy_range (P @ A @ S) (length P) (length P + length A) = Some A"
  by (simp add: copy_range_def)

lemma copy_rest_spec:
  assumes "i \<le> length arr" "length W = length arr - i"
  shows "copy_rest (P @ W @ S) arr i (length P) = Some (P @ drop i arr @ S, length P + length W)"
  using assms
proof (induction "P @ W @ S" arr i "length P" arbitrary: P W rule: copy_rest.induct)
  case (1 arr i)
  show ?case
  proof (cases "i < length arr")
    case False
    with "1.prems" show ?thesis by (subst copy_rest.simps) simp
  next
    case True
    with "1.prems" obtain w W' where W: "W = w # W'" by (cases W) auto
    have st: "store_at (P @ W @ S) (length P) (arr ! i) = Some ((P @ [arr ! i]) @ W' @ S)"
      using store_at_append[of P w "W' @ S" "arr ! i"] by (simp add: W)
    have "copy_rest ((P @ [arr ! i]) @ W' @ S) arr (i + 1) (length (P @ [arr ! i])) =
            Some ((P @ [arr ! i]) @ drop (i + 1) arr @ S, length (P @ [arr ! i]) + length W')"
      by (rule "1.hyps"[OF True st]) (use "1.prems" True W in simp_all)
    moreover have "drop i arr = arr ! i # drop (i + 1) arr"
      using True by (simp add: Cons_nth_drop_Suc)
    ultimately show ?thesis using True st W by (subst copy_rest.simps) simp
  qed
qed

lemma merge_loops_spec:
  assumes "i \<le> length L" "j \<le> length R" "length W = (length L - i) + (length R - j)"
  shows "\<exists>b1 i' j' k' b2 k2 k3.
      merge_both (P @ W @ S) L R i j (length P) = Some (b1, i', j', k') \<and>
      copy_rest b1 L i' k' = Some (b2, k2) \<and>
      copy_rest b2 R j' k2 = Some (P @ merge_lists (drop i L) (drop j R) @ S, k3)"
  using assms
proof (induction "P @ W @ S" L R i j "length P" arbitrary: P W rule: merge_both.induct)
  case (1 L R i j)
  show ?case
  proof (cases "i < length L \<and> j < length R")
    case False
    have mb: "merge_both (P @ W @ S) L R i j (length P) = Some (P @ W @ S, i, j, length P)"
      by (subst merge_both.simps) (simp only: False if_False)
    define W1 where "W1 = take (length L - i) W"
    define W2 where "W2 = drop (length L - i) W"
    have W: "W = W1 @ W2" and l1: "length W1 = length L - i" and l2: "length W2 = length R - j"
      using "1.prems"(3) by (simp_all add: W1_def W2_def)
    have c1: "copy_rest (P @ W @ S) L i (length P) =
        Some (P @ drop i L @ W2 @ S, length P + length W1)"
      using copy_rest_spec[OF "1.prems"(1) l1, of P "W2 @ S"] by (simp add: W)
    have c2: "copy_rest (P @ drop i L @ W2 @ S) R j (length P + length W1) =
        Some (P @ drop i L @ drop j R @ S, length (P @ drop i L) + length W2)"
      using copy_rest_spec[OF "1.prems"(2) l2, of "P @ drop i L" S] l1 by simp
    have "merge_lists (drop i L) (drop j R) = drop i L @ drop j R"
      using False "1.prems"(1,2) by (cases "i < length L") auto
    with mb c1 c2 show ?thesis by simp
  next
    case True
    then have iL: "i < length L" and jR: "j < length R" by simp_all
    from True "1.prems"(3) obtain w W' where W: "W = w # W'" by (cases W) auto
    have dL: "drop i L = L ! i # drop (i + 1) L" using iL by (simp add: Cons_nth_drop_Suc)
    have dR: "drop j R = R ! j # drop (j + 1) R" using jR by (simp add: Cons_nth_drop_Suc)
    show ?thesis
    proof (cases "title (L ! i) \<le> title (R ! j)")
      case le: True
      have st: "store_at (P @ W @ S) (length P) (L ! i) = Some ((P @ [L ! i]) @ W' @ S)"
        using store_at_append[of P w "W' @ S" "L ! i"] by (simp add: W)
      have "\<exists>b1 i' j' k' b2 k2 k3.
          merge_both ((P @ [L ! i]) @ W' @ S) L R (i + 1) j (length (P @ [L ! i])) = Some (b1, i', j', k') \<and>
          copy_rest b1 L i' k' = Some (b2, k2) \<and>
          copy_rest b2 R j' k2 = Some ((P @ [L ! i]) @ merge_lists (drop (i + 1) L) (drop j R) @ S, k3)"
        by (rule "1.hyps"(1)[OF True le st]) (use "1.prems" iL W in simp_all)
      moreover have "merge_lists (drop i L) (drop j R) = L ! i # merge_lists (drop (i + 1) L) (drop j R)"
        using le dL dR by (metis merge_lists.simps(3))
      moreover have "merge_both (P @ W @ S) L R i j (length P) =
          merge_both ((P @ [L ! i]) @ W' @ S) L R (i + 1) j (length (P @ [L ! i]))"
        using True le st by (subst merge_both.simps) simp
      ultimately show ?thesis by simp
    next
      case gt: False
      have st: "store_at (P @ W @ S) (length P) (R ! j) = Some ((P @ [R ! j]) @ W' @ S)"
        using store_at_append[of P w "W' @ S" "R ! j"] by (simp add: W)
      have "\<exists>b1 i' j' k' b2 k2 k3.
          merge_both ((P @ [R ! j]) @ W' @ S) L R i (j + 1) (length (P @ [R ! j])) = Some (b1, i', j', k') \<and>
          copy_rest b1 L i' k' = Some (b2, k2) \<and>
          copy_rest b2 R j' k2 = Some ((P @ [R ! j]) @ merge_lists (drop i L) (drop (j + 1) R) @ S, k3)"
        by (rule "1.hyps"(2)[OF True gt st]) (use "1.prems" jR W in simp_all)
      moreover have "merge_lists (drop i L) (drop j R) = R ! j # merge_lists (drop i L) (drop (j + 1) R)"
        using gt dL dR by (metis merge_lists.simps(3))
      moreover have "merge_both (P @ W @ S) L R i j (length P) =
          merge_both ((P @ [R ! j]) @ W' @ S) L R i (j + 1) (length (P @ [R ! j]))"
        using True gt st by (subst merge_both.simps) simp
      ultimately show ?thesis by simp
    qed
  qed
qed

lemma merge_spec:
  assumes "A \<noteq> []"
  shows "merge (P @ A @ B @ S) (length P) (length P + length A - 1) (length P + length A + length B - 1)
           = Some (P @ merge_lists A B @ S)"
proof (cases "B = []")
  case False
  have m1: "length P + length A - 1 + 1 = length P + length A"
    and r1: "length P + length A + length B - 1 + 1 = length (P @ A) + length B"
    using assms False by (simp_all add: Suc_leI)
  have cl: "copy_range (P @ A @ B @ S) (length P) (length P + length A) = Some A"
    using copy_range_append[of P A "B @ S"] by simp
  have cr: "copy_range (P @ A @ B @ S) (length P + length A) (length (P @ A) + length B) = Some B"
    using copy_range_append[of "P @ A" B S] by simp
  from merge_loops_spec[of 0 A 0 B "A @ B" P S]
  obtain b1 i' j' k' b2 k2 k3 where
    "merge_both (P @ A @ B @ S) A B 0 0 (length P) = Some (b1, i', j', k')"
    "copy_rest b1 A i' k' = Some (b2, k2)"
    "copy_rest b2 B j' k2 = Some (P @ merge_lists A B @ S, k3)"
    by auto
  then show ?thesis
    unfolding merge_def m1 r1 using cl cr by simp
next
  case True
  have m1: "length P + length A - 1 + 1 = length P + length A"
    using assms by (simp add: Suc_leI)
  have cl: "copy_range (P @ A @ S) (length P) (length P + length A) = Some A"
    by (rule copy_range_append)
  have cr: "copy_range (P @ A @ S) (length P + length A) (length P + length A) = Some []"
    by (simp add: copy_range_def)
  from merge_loops_spec[of 0 A 0 "[]" A P S]
  obtain b1 i' j' k' b2 k2 k3 where
    "merge_both (P @ A @ S) A [] 0 0 (length P) = Some (b1, i', j', k')"
    "copy_rest b1 A i' k' = Some (b2, k2)"
    "copy_rest b2 [] j' k2 = Some (P @ merge_lists A [] @ S, k3)"
    by auto
  then show ?thesis
    unfolding merge_def True using cl cr m1 by simp
qed

subsection \<open>Correctness of merge sort\<close>

text \<open>
  On a non-empty segment \<open>X\<close> of the array, \<^verbatim>\<open>mergeSort\<close> returns and leaves exactly the stable
  sort of \<open>X\<close> by title (\<open>sort_key\<close>, the insertion sort of the list library) in its place.
\<close>

lemma mergeSort_spec:
  assumes "X \<noteq> []"
  shows "mergeSort (P @ X @ S) (length P) (length P + length X - 1) = Some (P @ sort_key title X @ S)"
  using assms
proof (induction "length X" arbitrary: P X S rule: less_induct)
  case less
  show ?case
  proof (cases "length X = 1")
    case True
    then obtain x where "X = [x]" by (cases X) auto
    then show ?thesis by (subst mergeSort.simps) simp
  next
    case False
    with less.prems have n2: "2 \<le> length X" by (cases X) (auto simp: Suc_le_eq)
    define h where "h = (length X - 1) div 2 + 1"
    define A where "A = take h X"
    define B where "B = drop h X"
    have hlt: "h < length X" using n2 by (simp add: h_def)
    have X: "X = A @ B" and lA: "length A = h" and lB: "length B = length X - h"
      using hlt by (simp_all add: A_def B_def)
    have A0: "A \<noteq> []" and B0: "B \<noteq> []" using lA lB hlt by (auto simp: h_def)
    define left where "left = length P"
    define right where "right = length P + length X - 1"
    define mid where "mid = left + (right - left) div 2"
    define b1 where "b1 = P @ sort_key title A @ B @ S"
    define b2 where "b2 = P @ sort_key title A @ sort_key title B @ S"
    have ne: "\<not> (P @ X @ S = [] \<or> left \<ge> right)"
      using n2 less.prems by (simp add: left_def right_def)
    have midA: "mid = length P + length A - 1"
      by (simp add: mid_def left_def right_def lA h_def)
    have e1: "mergeSort (P @ X @ S) left mid = Some b1"
      using less.hyps[of A P "B @ S"] A0 lA hlt by (simp add: X midA left_def b1_def)
    have m1: "mid + 1 = length (P @ sort_key title A)"
      using A0 by (simp add: midA Suc_leI)
    have r: "right = length (P @ sort_key title A) + length B - 1"
      by (simp add: X right_def)
    have "mergeSort ((P @ sort_key title A) @ B @ S) (length (P @ sort_key title A))
        (length (P @ sort_key title A) + length B - 1) =
        Some ((P @ sort_key title A) @ sort_key title B @ S)"
      by (rule less.hyps[OF _ B0]) (use lB hlt in \<open>simp add: h_def\<close>)
    then have e2: "mergeSort b1 (mid + 1) right = Some b2"
      unfolding m1 r by (simp add: b1_def b2_def)
    have e3: "merge b2 left mid right =
        Some (P @ merge_lists (sort_key title A) (sort_key title B) @ S)"
    proof -
      have "sort_key title A \<noteq> []" using A0 by (metis length_0_conv length_sort)
      from merge_spec[OF this, of P "sort_key title B" S] show ?thesis
        by (simp add: X add.assoc b2_def left_def midA right_def)
    qed
    have "mergeSort (P @ X @ S) left right =
        Some (P @ merge_lists (sort_key title A) (sort_key title B) @ S)"
      by (subst mergeSort.simps)
         (simp only: ne if_False Let_def mid_def[symmetric] e1 e2 e3 option.case)
    then show ?thesis by (simp add: merge_lists_sort_key X left_def right_def)
  qed
qed

lemma mergeSort_full:
  "mergeSort bids 0 (size_sub (length bids) 1) = Some (sort_key title bids)"
proof (cases "bids = []")
  case True
  then show ?thesis by (subst mergeSort.simps) simp
next
  case False
  then have "size_sub (length bids) 1 = length bids - 1" by (simp add: size_sub_def Suc_leI)
  with mergeSort_spec[OF False, of "[]" "[]"] show ?thesis by simp
qed

section \<open>Heap sort\<close>

text \<open>
  \<^verbatim>\<open>BidSorter::heapSort\<close> sifts down with a recursive closure:
  \<^verbatim>\<open>
  size_t largest = i;
  size_t left = 2 * i + 1;
  size_t right = 2 * i + 2;
  if (left < n && bids[left].title > bids[largest].title) largest = left;
  if (right < n && bids[right].title > bids[largest].title) largest = right;
  if (largest != i) {
      swap(bids[i], bids[largest]);
      self(n, largest, self);
  }\<close>
  \<open>pick_larger\<close> is one of the two conditional assignments to \<^verbatim>\<open>largest\<close>, for the child
  \<open>child\<close>; \<open>heapify\<close> is the closure. The child indices are computed without wrap-around:
  \<open>heapSort\<close> calls the closure with \<open>i\<close> below the size of the vector, and twice the size of a
  vector of records is far below \<open>2 ^ 64\<close>.
\<close>

definition pick_larger :: "Bid list \<Rightarrow> nat \<Rightarrow> nat \<Rightarrow> nat \<Rightarrow> nat option" where
  "pick_larger bids n child largest =
     (if child < n then
        (case read_at bids child of
           None \<Rightarrow> None
         | Some bc \<Rightarrow>
             (case read_at bids largest of
                None \<Rightarrow> None
              | Some bg \<Rightarrow> Some (if title bc > title bg then child else largest)))
      else Some largest)"

lemma pick_larger_cases:
  "pick_larger bids n c l = Some r \<Longrightarrow> r = l \<or> (r = c \<and> c < n)"
  by (auto simp: pick_larger_def split: if_splits option.splits)

function heapify :: "Bid list \<Rightarrow> nat \<Rightarrow> nat \<Rightarrow> Bid list option" where
  "heapify bids n i =
     (case pick_larger bids n (2 * i + 1) i of
        None \<Rightarrow> None
      | Some largest1 \<Rightarrow>
          (case pick_larger bids n (2 * i + 2) largest1 of
             None \<Rightarrow> None
           | Some largest \<Rightarrow>
               if largest \<noteq> i then
                 (case swap_at bids i largest of
                    None \<Rightarrow> None
                  | Some bids' \<Rightarrow> heapify bids' n largest)
               else Some bids))"
  by pat_completeness auto
termination
proof (relation "measure (\<lambda>(bids, n, i). n - i)")
  show "wf (measure (\<lambda>(bids, n, i). n - i))" by simp
next
  fix bids :: "Bid list" and n i largest1 largest bids'
  assume "pick_larger bids n (2 * i + 1) i = Some largest1"
    "pick_larger bids n (2 * i + 2) largest1 = Some largest" "largest \<noteq> i"
  then have "i < largest \<and> largest < n"
    by (auto dest!: pick_larger_cases)
  then show "((bids', n, largest), (bids, n, i)) \<in> measure (\<lambda>(bids, n, i). n - i)"
    by auto
qed

text \<open>
  The body of \<^verbatim>\<open>heapSort\<close>:
  \<^verbatim>\<open>
  if (bids.empty()) return;
  size_t n = bids.size();
  for (int i = n / 2 - 1; i >= 0; i--) heapify(n, i);
  for (size_t i = n - 1; i > 0; i--) {
      swap(bids[0], bids[i]);
      heapify(i, 0);
  }\<close>
  The counter of the first loop is an \<^verbatim>\<open>int\<close>, 32 bits wide, initialised from the \<^verbatim>\<open>size_t\<close>
  value \<^verbatim>\<open>n / 2 - 1\<close>. \<open>int_of_size\<close> is that conversion: the value modulo \<open>2 ^ 32\<close>, read as two's
  complement. For \<^verbatim>\<open>n = 1\<close> the subtraction wraps around to \<open>2 ^ 64 - 1\<close>, which converts to
  \<open>-1\<close>. Inside the loop \<^verbatim>\<open>i\<close> is not negative and converts back to \<^verbatim>\<open>size_t\<close> unchanged.
\<close>

definition int_of_size :: "nat \<Rightarrow> int" where
  "int_of_size v = (let r = v mod 2 ^ 32 in if r < 2 ^ 31 then int r else int r - 2 ^ 32)"

function build_heap_loop :: "Bid list \<Rightarrow> nat \<Rightarrow> int \<Rightarrow> Bid list option" where
  "build_heap_loop bids n i =
     (if i \<ge> 0 then
        (case heapify bids n (nat i) of
           None \<Rightarrow> None
         | Some bids' \<Rightarrow> build_heap_loop bids' n (i - 1))
      else Some bids)"
  by pat_completeness auto
termination
  by (relation "measure (\<lambda>(bids, n, i). nat (i + 1))") auto

function extract_loop :: "Bid list \<Rightarrow> nat \<Rightarrow> Bid list option" where
  "extract_loop bids i =
     (if i > 0 then
        (case swap_at bids 0 i of
           None \<Rightarrow> None
         | Some bids1 \<Rightarrow>
             (case heapify bids1 i 0 of
                None \<Rightarrow> None
              | Some bids2 \<Rightarrow> extract_loop bids2 (i - 1)))
      else Some bids)"
  by pat_completeness auto
termination
  by (relation "measure (\<lambda>(bids, i). i)") auto

definition heapSort :: "Bid list \<Rightarrow> Bid list option" where
  "heapSort bids =
     (if bids = [] then Some bids
      else
        (let n = length bids in
         case build_heap_loop bids n (int_of_size (size_sub (n div 2) 1)) of
           None \<Rightarrow> None
         | Some bids1 \<Rightarrow> extract_loop bids1 (size_sub n 1)))"

declare heapify.simps [simp del] build_heap_loop.simps [simp del] extract_loop.simps [simp del]

subsection \<open>Sifting down\<close>

lemma pick_larger_spec:
  assumes "n \<le> length bids" "l < n"
  shows "\<exists>r. pick_larger bids n c l = Some r \<and> (r = l \<or> (r = c \<and> c < n)) \<and>
           title (bids ! l) \<le> title (bids ! r) \<and> (c < n \<longrightarrow> title (bids ! c) \<le> title (bids ! r)) \<and>
           (r \<noteq> l \<longrightarrow> title (bids ! l) < title (bids ! r))"
  using assms by (auto simp: pick_larger_def read_at_def)

lemma heapify_choice:
  assumes "n \<le> length bids" "i < n"
  obtains g1 g where "pick_larger bids n (2 * i + 1) i = Some g1"
    "pick_larger bids n (2 * i + 2) g1 = Some g"
    "g = i \<or> g = 2 * i + 1 \<or> g = 2 * i + 2" "g < n"
    "title (bids ! i) \<le> title (bids ! g)"
    "2 * i + 1 < n \<longrightarrow> title (bids ! (2 * i + 1)) \<le> title (bids ! g)"
    "2 * i + 2 < n \<longrightarrow> title (bids ! (2 * i + 2)) \<le> title (bids ! g)"
    "g \<noteq> i \<longrightarrow> title (bids ! i) < title (bids ! g)"
proof -
  from pick_larger_spec[OF assms, of "2 * i + 1"]
  obtain g1 where g1: "pick_larger bids n (2 * i + 1) i = Some g1"
    "g1 = i \<or> (g1 = 2 * i + 1 \<and> 2 * i + 1 < n)"
    "title (bids ! i) \<le> title (bids ! g1)"
    "2 * i + 1 < n \<longrightarrow> title (bids ! (2 * i + 1)) \<le> title (bids ! g1)"
    "g1 \<noteq> i \<longrightarrow> title (bids ! i) < title (bids ! g1)"
    by blast
  have g1n: "g1 < n" using g1(2) assms(2) by auto
  from pick_larger_spec[OF assms(1) g1n, of "2 * i + 2"]
  obtain g where g: "pick_larger bids n (2 * i + 2) g1 = Some g"
    "g = g1 \<or> (g = 2 * i + 2 \<and> 2 * i + 2 < n)"
    "title (bids ! g1) \<le> title (bids ! g)"
    "2 * i + 2 < n \<longrightarrow> title (bids ! (2 * i + 2)) \<le> title (bids ! g)"
    "g \<noteq> g1 \<longrightarrow> title (bids ! g1) < title (bids ! g)"
    by blast
  have a: "g = i \<or> g = 2 * i + 1 \<or> g = 2 * i + 2" using g1(2) g(2) by auto
  have b: "g < n" using g(2) g1n by auto
  have c: "title (bids ! i) \<le> title (bids ! g)" using g1(3) g(3) by (rule order_trans)
  have d: "2 * i + 1 < n \<longrightarrow> title (bids ! (2 * i + 1)) \<le> title (bids ! g)"
    using g1(4) g(3) by (auto intro: order_trans)
  have e: "g \<noteq> i \<longrightarrow> title (bids ! i) < title (bids ! g)"
  proof
    assume "g \<noteq> i"
    show "title (bids ! i) < title (bids ! g)"
    proof (cases "g1 = i")
      case True with g(5) \<open>g \<noteq> i\<close> show ?thesis by simp
    next
      case False
      with g1(5) have "title (bids ! i) < title (bids ! g1)" by simp
      then show ?thesis using g(3) by (rule less_le_trans)
    qed
  qed
  from that[OF g1(1) g(1) a b c d g(4) e] show thesis .
qed

lemma heapify_basic:
  assumes "n \<le> length bids" "i < n"
  shows "\<exists>out. heapify bids n i = Some out \<and> length out = length bids \<and> mset out = mset bids \<and>
           (\<forall>k. k < i \<or> n \<le> k \<longrightarrow> out ! k = bids ! k)"
  using assms
proof (induction bids n i rule: heapify.induct)
  case (1 bids n i)
  from heapify_choice[OF "1.prems"] obtain g1 g where
    g: "pick_larger bids n (2 * i + 1) i = Some g1" "pick_larger bids n (2 * i + 2) g1 = Some g"
    "g = i \<or> g = 2 * i + 1 \<or> g = 2 * i + 2" "g < n"
    by blast
  show ?case
  proof (cases "g = i")
    case True
    then show ?thesis using g(1,2) by (subst heapify.simps) simp
  next
    case False
    define bids' where "bids' = bids[i := bids ! g, g := bids ! i]"
    have il: "i < length bids" and gl: "g < length bids" using "1.prems" g(4) by simp_all
    have sw: "swap_at bids i g = Some bids'" using il gl by (simp add: swap_at_def bids'_def)
    have len': "n \<le> length bids'" using "1.prems"(1) by (simp add: bids'_def)
    from "1.IH"[OF g(1,2) False sw len' g(4)]
    obtain out where out: "heapify bids' n g = Some out" "length out = length bids'"
      "mset out = mset bids'" "\<forall>k. k < g \<or> n \<le> k \<longrightarrow> out ! k = bids' ! k"
      by blast
    have h: "heapify bids n i = Some out"
      using g(1,2) False sw out(1) by (subst heapify.simps) simp
    have ig: "i < g" using g(3) False by auto
    have fr: "\<forall>k. k < i \<or> n \<le> k \<longrightarrow> out ! k = bids ! k"
    proof (intro allI impI)
      fix k assume k: "k < i \<or> n \<le> k"
      then have k': "k \<noteq> i" "k \<noteq> g" "k < g \<or> n \<le> k" using ig g(4) "1.prems"(2) by auto
      then have "bids' ! k = bids ! k" by (simp add: bids'_def)
      with out(4) k'(3) show "out ! k = bids ! k" by auto
    qed
    from h out(2,3) fr mset_swap_upd[OF il gl] show ?thesis by (simp add: bids'_def)
  qed
qed

subsection \<open>Heaps in an array\<close>

text \<open>
  \<open>child_le bids n p\<close>: within the first \<open>n\<close> positions, no child of \<open>p\<close> has a greater title than
  \<open>p\<close>. \<open>heap_from bids n l\<close>: this holds for every parent from \<open>l\<close> on. \<open>sift_pre\<close> is what
  \<open>heapify\<close> needs at \<open>i\<close> to establish \<open>heap_from\<close>: the property at every parent but \<open>i\<close>, and
  no child of \<open>i\<close> above the parent of \<open>i\<close>.
\<close>

definition child_le :: "Bid list \<Rightarrow> nat \<Rightarrow> nat \<Rightarrow> bool" where
  "child_le bids n p \<longleftrightarrow>
     (2 * p + 1 < n \<longrightarrow> title (bids ! (2 * p + 1)) \<le> title (bids ! p)) \<and>
     (2 * p + 2 < n \<longrightarrow> title (bids ! (2 * p + 2)) \<le> title (bids ! p))"

definition heap_from :: "Bid list \<Rightarrow> nat \<Rightarrow> nat \<Rightarrow> bool" where
  "heap_from bids n l \<longleftrightarrow> (\<forall>p. l \<le> p \<longrightarrow> child_le bids n p)"

definition sift_pre :: "Bid list \<Rightarrow> nat \<Rightarrow> nat \<Rightarrow> nat \<Rightarrow> bool" where
  "sift_pre bids n l i \<longleftrightarrow>
     (\<forall>p. l \<le> p \<and> p \<noteq> i \<longrightarrow> child_le bids n p) \<and>
     (\<forall>pp. l \<le> pp \<and> (i = 2 * pp + 1 \<or> i = 2 * pp + 2) \<longrightarrow>
        (2 * i + 1 < n \<longrightarrow> title (bids ! (2 * i + 1)) \<le> title (bids ! pp)) \<and>
        (2 * i + 2 < n \<longrightarrow> title (bids ! (2 * i + 2)) \<le> title (bids ! pp)))"

lemma sift_pre_swap:
  assumes pre: "sift_pre bids n l i" and li: "l \<le> i" and n: "n \<le> length bids"
    and g: "g = 2 * i + 1 \<or> g = 2 * i + 2" "g < n"
    and mx: "title (bids ! i) < title (bids ! g)"
      "2 * i + 1 < n \<longrightarrow> title (bids ! (2 * i + 1)) \<le> title (bids ! g)"
      "2 * i + 2 < n \<longrightarrow> title (bids ! (2 * i + 2)) \<le> title (bids ! g)"
  shows "sift_pre (bids[i := bids ! g, g := bids ! i]) n l g"
proof -
  let ?b = "bids[i := bids ! g, g := bids ! i]"
  have ig: "i < g" using g(1) by auto
  have il: "i < length bids" and gl: "g < length bids" using ig g(2) n by simp_all
  have nth: "?b ! k = (if k = g then bids ! i else if k = i then bids ! g else bids ! k)" for k
    using il gl by (simp add: nth_list_update)
  from pre have P1: "\<And>p. l \<le> p \<Longrightarrow> p \<noteq> i \<Longrightarrow> child_le bids n p"
    and P2: "\<And>pp. l \<le> pp \<Longrightarrow> i = 2 * pp + 1 \<or> i = 2 * pp + 2 \<Longrightarrow>
        (2 * i + 1 < n \<longrightarrow> title (bids ! (2 * i + 1)) \<le> title (bids ! pp)) \<and>
        (2 * i + 2 < n \<longrightarrow> title (bids ! (2 * i + 2)) \<le> title (bids ! pp))"
    by (auto simp: sift_pre_def)
  have A: "child_le ?b n p" if "l \<le> p" "p \<noteq> g" for p
  proof (cases "p = i")
    case True
    show ?thesis
      unfolding child_le_def True using g(1) mx ig by (auto simp: nth)
  next
    case False
    have c1: "2 * p + 1 \<noteq> g" "2 * p + 2 \<noteq> g" using g(1) False by presburger+
    have pc: "child_le bids n p" using P1[OF that(1) False] .
    show ?thesis
    proof (cases "i = 2 * p + 1 \<or> i = 2 * p + 2")
      case True
      from P2[OF that(1) True] g have "title (bids ! g) \<le> title (bids ! p)" by auto
      with pc True c1 False that(2) show ?thesis
        unfolding child_le_def by (auto simp: nth)
    next
      case False
      with pc c1 \<open>p \<noteq> i\<close> that(2) show ?thesis
        unfolding child_le_def by (auto simp: nth)
    qed
  qed
  have B: "(2 * g + 1 < n \<longrightarrow> title (?b ! (2 * g + 1)) \<le> title (?b ! pp)) \<and>
        (2 * g + 2 < n \<longrightarrow> title (?b ! (2 * g + 2)) \<le> title (?b ! pp))"
    if "l \<le> pp" "g = 2 * pp + 1 \<or> g = 2 * pp + 2" for pp
  proof -
    have "pp = i" using that(2) g(1) by presburger
    have "child_le bids n g" using P1[of g] li ig by simp
    then show ?thesis unfolding child_le_def \<open>pp = i\<close> using ig by (auto simp: nth)
  qed
  show ?thesis unfolding sift_pre_def using A B by blast
qed

lemma heapify_heap:
  assumes "n \<le> length bids" "i < n" "l \<le> i" "sift_pre bids n l i" "heapify bids n i = Some out"
  shows "heap_from out n l"
  using assms
proof (induction bids n i rule: heapify.induct)
  case (1 bids n i)
  from heapify_choice[OF "1.prems"(1,2)] obtain g1 g where
    g: "pick_larger bids n (2 * i + 1) i = Some g1" "pick_larger bids n (2 * i + 2) g1 = Some g"
    "g = i \<or> g = 2 * i + 1 \<or> g = 2 * i + 2" "g < n"
    "title (bids ! i) \<le> title (bids ! g)"
    "2 * i + 1 < n \<longrightarrow> title (bids ! (2 * i + 1)) \<le> title (bids ! g)"
    "2 * i + 2 < n \<longrightarrow> title (bids ! (2 * i + 2)) \<le> title (bids ! g)"
    "g \<noteq> i \<longrightarrow> title (bids ! i) < title (bids ! g)"
    by blast
  show ?case
  proof (cases "g = i")
    case True
    have "out = bids" using "1.prems"(5) g(1,2) True by (subst (asm) heapify.simps) simp
    moreover have "child_le bids n i" unfolding child_le_def using g(6,7) True by simp
    ultimately show ?thesis
      using "1.prems"(4) unfolding heap_from_def sift_pre_def by blast
  next
    case False
    define bids' where "bids' = bids[i := bids ! g, g := bids ! i]"
    have il: "i < length bids" and gl: "g < length bids" using "1.prems" g(4) by simp_all
    have sw: "swap_at bids i g = Some bids'" using il gl by (simp add: swap_at_def bids'_def)
    have len': "n \<le> length bids'" using "1.prems"(1) by (simp add: bids'_def)
    have gc: "g = 2 * i + 1 \<or> g = 2 * i + 2" using g(3) False by simp
    have pre': "sift_pre bids' n l g"
      unfolding bids'_def
      by (rule sift_pre_swap[OF "1.prems"(4,3,1) gc g(4) _ g(6,7)]) (use g(8) False in simp)
    have h: "heapify bids' n g = Some out"
      using "1.prems"(5) g(1,2) False sw by (subst (asm) heapify.simps) simp
    have lg: "l \<le> g" using "1.prems"(3) gc by auto
    from "1.IH"[OF g(1,2) False sw len' g(4) lg pre' h] show ?thesis .
  qed
qed

lemma heap_root_max:
  assumes "heap_from bids m 0" "k < m"
  shows "title (bids ! k) \<le> title (bids ! 0)"
  using assms(2)
proof (induction k rule: less_induct)
  case (less k)
  show ?case
  proof (cases "k = 0")
    case True then show ?thesis by simp
  next
    case False
    define p where "p = (k - 1) div 2"
    have pk: "k = 2 * p + 1 \<or> k = 2 * p + 2" using False unfolding p_def by presburger
    then have "p < k" by auto
    then have "title (bids ! p) \<le> title (bids ! 0)" using less by simp
    moreover have "child_le bids m p" using assms(1) by (simp add: heap_from_def)
    then have "title (bids ! k) \<le> title (bids ! p)"
      using pk less.prems by (auto simp: child_le_def)
    ultimately show ?thesis by (rule order_trans[rotated])
  qed
qed

subsection \<open>Building the heap\<close>

lemma build_heap_loop_basic:
  assumes "n \<le> length bids" "i < int n"
  shows "\<exists>out. build_heap_loop bids n i = Some out \<and> length out = length bids \<and> mset out = mset bids"
  using assms
proof (induction bids n i rule: build_heap_loop.induct)
  case (1 bids n i)
  show ?case
  proof (cases "i \<ge> 0")
    case False
    then show ?thesis by (subst build_heap_loop.simps) simp
  next
    case True
    then have "nat i < n" using "1.prems"(2) by simp
    from heapify_basic[OF "1.prems"(1) this]
    obtain b' where b': "heapify bids n (nat i) = Some b'" "length b' = length bids"
      "mset b' = mset bids" by blast
    have "n \<le> length b'" "i - 1 < int n" using b'(2) "1.prems" by simp_all
    from "1.IH"[OF True b'(1) this]
    obtain out where "build_heap_loop b' n (i - 1) = Some out" "length out = length b'"
      "mset out = mset b'" by blast
    then show ?thesis using True b' by (subst build_heap_loop.simps) simp
  qed
qed

lemma build_heap_loop_heap:
  assumes "n \<le> length bids" "i < int n" "- 1 \<le> i" "heap_from bids n (nat (i + 1))"
    "build_heap_loop bids n i = Some out"
  shows "heap_from out n 0"
  using assms
proof (induction bids n i rule: build_heap_loop.induct)
  case (1 bids n i)
  show ?case
  proof (cases "i \<ge> 0")
    case False
    then have "out = bids" using "1.prems"(5) by (subst (asm) build_heap_loop.simps) simp
    moreover have "nat (i + 1) = 0" using False by simp
    ultimately show ?thesis using "1.prems"(4) by simp
  next
    case True
    then have lt: "nat i < n" using "1.prems"(2) by simp
    from heapify_basic[OF "1.prems"(1) lt]
    obtain b' where b': "heapify bids n (nat i) = Some b'" "length b' = length bids" by blast
    have pre: "sift_pre bids n (nat i) (nat i)"
    proof -
      have "child_le bids n p" if "nat i \<le> p" "p \<noteq> nat i" for p
      proof -
        have "nat (i + 1) \<le> p" using that True by arith
        then show ?thesis using "1.prems"(4) by (simp add: heap_from_def)
      qed
      moreover have "\<not> (nat i \<le> pp \<and> (nat i = 2 * pp + 1 \<or> nat i = 2 * pp + 2))" for pp
        by arith
      ultimately show ?thesis unfolding sift_pre_def by blast
    qed
    have hp: "heap_from b' n (nat i)"
      by (rule heapify_heap[OF "1.prems"(1) lt le_refl pre b'(1)])
    have nx: "nat (i - 1 + 1) = nat i" by simp
    have r: "build_heap_loop b' n (i - 1) = Some out"
      using "1.prems"(5) True b'(1) by (subst (asm) build_heap_loop.simps) simp
    have "n \<le> length b'" "i - 1 < int n" "- 1 \<le> i - 1" using b'(2) "1.prems" True by simp_all
    from "1.IH"[OF True b'(1) this _ r] hp nx show ?thesis by simp
  qed
qed

lemma int_of_size_small: "v < 2 ^ 31 \<Longrightarrow> int_of_size v = int v"
  by (simp add: int_of_size_def)

lemma int_of_size_upper: "int_of_size v \<le> int v"
proof -
  have "v mod 2 ^ 32 \<le> v" by simp
  then have "int (v mod 2 ^ 32) \<le> int v" by (simp only: of_nat_le_iff)
  then show ?thesis by (auto simp: int_of_size_def Let_def)
qed

lemma int_of_size_wrap: "int_of_size (size_sub 0 (Suc 0)) = - 1"
  by (simp add: int_of_size_def size_sub_def)

lemma build_start_lt: "0 < n \<Longrightarrow> int_of_size (size_sub (n div 2) 1) < int n"
proof (cases "n div 2 = 0")
  case True
  then show ?thesis by (simp add: int_of_size_wrap)
next
  case False
  assume "0 < n"
  have "size_sub (n div 2) 1 = n div 2 - 1" using False by (simp add: size_sub_def)
  moreover have "int_of_size (n div 2 - 1) \<le> int (n div 2 - 1)" by (rule int_of_size_upper)
  moreover have "n div 2 - 1 < n" using \<open>0 < n\<close> by simp
  ultimately show ?thesis by simp
qed

lemma build_start_exact:
  assumes "0 < n" "n \<le> 2 ^ 32 + 1"
  shows "int_of_size (size_sub (n div 2) 1) = int (n div 2) - 1"
proof (cases "n div 2 = 0")
  case True
  then show ?thesis by (simp add: int_of_size_wrap)
next
  case False
  have "size_sub (n div 2) 1 = n div 2 - 1" using False by (simp add: size_sub_def)
  moreover have "n div 2 - 1 < 2 ^ 31" using assms(2) by simp
  ultimately show ?thesis using False by (simp add: int_of_size_small of_nat_diff)
qed

subsection \<open>Extracting the maximum\<close>

lemma extract_loop_basic:
  assumes "i < length bids"
  shows "\<exists>out. extract_loop bids i = Some out \<and> length out = length bids \<and> mset out = mset bids \<and>
           (\<forall>k. i < k \<longrightarrow> out ! k = bids ! k)"
  using assms
proof (induction bids i rule: extract_loop.induct)
  case (1 bids i)
  show ?case
  proof (cases "i > 0")
    case False
    then show ?thesis by (subst extract_loop.simps) simp
  next
    case True
    define b1 where "b1 = bids[0 := bids ! i, i := bids ! 0]"
    have l0: "0 < length bids" using "1.prems" by (cases bids) simp_all
    have sw: "swap_at bids 0 i = Some b1" using "1.prems" l0 by (simp add: swap_at_def b1_def)
    have "i \<le> length b1" using "1.prems" by (simp add: b1_def)
    from heapify_basic[OF this True]
    obtain b2 where b2: "heapify b1 i 0 = Some b2" "length b2 = length b1" "mset b2 = mset b1"
      "\<forall>k. k < 0 \<or> i \<le> k \<longrightarrow> b2 ! k = b1 ! k" by blast
    have "i - 1 < length b2" using b2(2) "1.prems" by (simp add: b1_def)
    from "1.IH"[OF True sw b2(1) this]
    obtain out where out: "extract_loop b2 (i - 1) = Some out" "length out = length b2"
      "mset out = mset b2" "\<forall>k. i - 1 < k \<longrightarrow> out ! k = b2 ! k" by blast
    have e: "extract_loop bids i = Some out"
      using True sw b2(1) out(1) by (subst extract_loop.simps) simp
    have fr: "\<forall>k. i < k \<longrightarrow> out ! k = bids ! k"
    proof (intro allI impI)
      fix k assume k: "i < k"
      then have "out ! k = b2 ! k" using out(4) by simp
      also have "\<dots> = b1 ! k" using b2(4) k by simp
      also have "\<dots> = bids ! k" using k True by (simp add: b1_def)
      finally show "out ! k = bids ! k" .
    qed
    from e out(2,3) b2(2,3) fr mset_swap_upd[OF l0 "1.prems"] show ?thesis
      by (simp add: b1_def)
  qed
qed

lemma extract_loop_sorted:
  assumes "i < length bids" "heap_from bids (i + 1) 0"
    and "\<forall>a b. i < a \<and> a \<le> b \<and> b < length bids \<longrightarrow> title (bids ! a) \<le> title (bids ! b)"
    and "\<forall>a b. a \<le> i \<and> i < b \<and> b < length bids \<longrightarrow> title (bids ! a) \<le> title (bids ! b)"
    and "extract_loop bids i = Some out"
  shows "sorted (map title out)"
  using assms
proof (induction bids i rule: extract_loop.induct)
  case (1 bids i)
  note tail = "1.prems"(3) and cut = "1.prems"(4)
  show ?case
  proof (cases "i > 0")
    case False
    then have o: "out = bids" and i0: "i = 0"
      using "1.prems"(5) by (subst (asm) extract_loop.simps, simp)+
    have "title (bids ! a) \<le> title (bids ! b)" if "a \<le> b \<and> b < length bids" for a b
    proof (cases "a = 0")
      case True
      show ?thesis
      proof (cases "b = 0")
        case True with \<open>a = 0\<close> show ?thesis by simp
      next
        case False then show ?thesis using cut True that i0 by simp
      qed
    next
      case False then show ?thesis using tail that i0 by simp
    qed
    then show ?thesis unfolding o by (simp add: sorted_iff_nth_mono)
  next
    case True
    define b1 where "b1 = bids[0 := bids ! i, i := bids ! 0]"
    have l0: "0 < length bids" using "1.prems"(1) by (cases bids) simp_all
    have sw: "swap_at bids 0 i = Some b1" using "1.prems"(1) l0 by (simp add: swap_at_def b1_def)
    have nth1: "b1 ! k = (if k = i then bids ! 0 else if k = 0 then bids ! i else bids ! k)" for k
      using l0 "1.prems"(1) by (simp add: b1_def nth_list_update)
    have len1: "length b1 = length bids" by (simp add: b1_def)
    have il1: "i \<le> length b1" using "1.prems"(1) len1 by simp
    from heapify_basic[OF il1 True]
    obtain b2 where b2: "heapify b1 i 0 = Some b2" "length b2 = length b1" "mset b2 = mset b1"
      "\<forall>k. k < 0 \<or> i \<le> k \<longrightarrow> b2 ! k = b1 ! k" by blast
    have r: "extract_loop b2 (i - 1) = Some out"
      using "1.prems"(5) True sw b2(1) by (subst (asm) extract_loop.simps) simp
    \<comment> \<open>the root was the maximum of the heap\<close>
    have mx: "title (bids ! k) \<le> title (bids ! 0)" if "k \<le> i" for k
      using heap_root_max[OF "1.prems"(2), of k] that by simp
    \<comment> \<open>the heap property is restored on the shrunk heap\<close>
    have pre: "sift_pre b1 i 0 0"
    proof -
      have "child_le b1 i p" if "p \<noteq> 0" for p
      proof -
        have "child_le bids (i + 1) p" using "1.prems"(2) by (simp add: heap_from_def)
        then show ?thesis using that unfolding child_le_def by (auto simp: nth1)
      qed
      then show ?thesis unfolding sift_pre_def by simp
    qed
    have hp: "heap_from b2 (i - 1 + 1) 0"
      using heapify_heap[OF il1 True le_refl pre b2(1)] True by simp
    \<comment> \<open>every element left in the heap is below the extracted one\<close>
    have low: "title (b2 ! k) \<le> title (bids ! 0)" if "k < i" for k
    proof -
      have fr: "\<forall>k. k < 0 \<or> i - 1 < k \<longrightarrow> b2 ! k = b1 ! k" using b2(4) by auto
      have P: "\<forall>k. 0 \<le> k \<and> k \<le> i - 1 \<longrightarrow> title (b1 ! k) \<le> title (bids ! 0)"
        using mx True by (auto simp: nth1)
      show ?thesis
        by (rule segment_transfer[OF b2(2,3) fr _ P])
           (use that True il1 in auto)
    qed
    have at_i: "b2 ! i = bids ! 0" using b2(4) by (simp add: nth1)
    have above: "b2 ! k = bids ! k" if "i < k" for k using b2(4) that by (simp add: nth1)
    have len2: "length b2 = length bids" using b2(2) len1 by simp
    have tail': "\<forall>a b. i - 1 < a \<and> a \<le> b \<and> b < length b2 \<longrightarrow> title (b2 ! a) \<le> title (b2 ! b)"
    proof (intro allI impI)
      fix a b assume h: "i - 1 < a \<and> a \<le> b \<and> b < length b2"
      show "title (b2 ! a) \<le> title (b2 ! b)"
      proof (cases "a = i")
        case ai: True
        show ?thesis
        proof (cases "b = i")
          case True with ai show ?thesis by simp
        next
          case False
          then have "i < b" using h ai by simp
          then show ?thesis using cut h ai at_i above[of b] len2 by simp
        qed
      next
        case False
        then have "i < a" "i < b" using h by auto
        then show ?thesis using tail h above len2 by simp
      qed
    qed
    have cut': "\<forall>a b. a \<le> i - 1 \<and> i - 1 < b \<and> b < length b2 \<longrightarrow> title (b2 ! a) \<le> title (b2 ! b)"
    proof (intro allI impI)
      fix a b assume h: "a \<le> i - 1 \<and> i - 1 < b \<and> b < length b2"
      then have ai: "a < i" using True by auto
      show "title (b2 ! a) \<le> title (b2 ! b)"
      proof (cases "b = i")
        case True
        then show ?thesis using low[OF ai] at_i by simp
      next
        case False
        then have bi: "i < b" using h by auto
        have "title (b2 ! a) \<le> title (bids ! 0)" using low[OF ai] .
        also have "\<dots> \<le> title (bids ! b)" using cut bi h len2 by simp
        finally show ?thesis using above[OF bi] by simp
      qed
    qed
    have "i - 1 < length b2" using len2 "1.prems"(1) by simp
    from "1.IH"[OF True sw b2(1) this hp tail' cut' r] show ?thesis .
  qed
qed

subsection \<open>Correctness of heap sort\<close>

lemma heapSort_basic:
  "\<exists>out. heapSort bids = Some out \<and> length out = length bids \<and> mset out = mset bids"
proof (cases "bids = []")
  case True
  then show ?thesis by (simp add: heapSort_def)
next
  case False
  then have n0: "0 < length bids" by simp
  from build_heap_loop_basic[OF le_refl build_start_lt[OF n0]]
  obtain b1 where b1: "build_heap_loop bids (length bids) (int_of_size (size_sub (length bids div 2) 1)) = Some b1"
    "length b1 = length bids" "mset b1 = mset bids" by blast
  have "size_sub (length bids) 1 < length b1"
    unfolding size_sub_1[OF n0] b1(2) using False by (cases bids) simp_all
  from extract_loop_basic[OF this]
  obtain out where "extract_loop b1 (size_sub (length bids) 1) = Some out" "length out = length b1"
    "mset out = mset b1" by blast
  then show ?thesis using False b1 by (simp add: heapSort_def)
qed

lemma heapSort_sorted:
  assumes "length bids \<le> 2 ^ 32 + 1" "heapSort bids = Some out"
  shows "sorted (map title out)"
proof (cases "bids = []")
  case True
  then show ?thesis using assms(2) by (simp add: heapSort_def)
next
  case False
  define n where "n = length bids"
  have n0: "0 < n" using False by (simp add: n_def)
  have st: "int_of_size (size_sub (n div 2) 1) = int (n div 2) - 1"
    using build_start_exact[OF n0] assms(1) by (simp add: n_def)
  have lt: "int (n div 2) - 1 < int n" using n0 by simp
  from build_heap_loop_basic[where bids = bids and n = n and i = "int (n div 2) - 1"] lt
  obtain b1 where b1: "build_heap_loop bids n (int (n div 2) - 1) = Some b1"
    "length b1 = length bids" by (auto simp: n_def)
  have h0: "heap_from bids n (nat (int (n div 2) - 1 + 1))"
    unfolding heap_from_def child_le_def by auto
  have hp: "heap_from b1 n 0"
    by (rule build_heap_loop_heap[OF _ lt _ h0 b1(1)]) (simp_all add: n_def)
  have sn: "size_sub n 1 = n - 1" using n0 by (simp add: size_sub_def)
  have e: "extract_loop b1 (n - 1) = Some out"
    using assms(2) False b1(1) st sn by (simp add: heapSort_def n_def[symmetric])
  have i: "n - 1 < length b1" using n0 b1(2) by (simp add: n_def)
  have hp': "heap_from b1 (n - 1 + 1) 0" using hp n0 by simp
  show ?thesis
    by (rule extract_loop_sorted[OF i hp' _ _ e]) (use b1(2) in \<open>auto simp: n_def\<close>)
qed

subsection \<open>When the first loop does not run\<close>

text \<open>
  When the converted start value of the first loop is negative although the vector has two or
  more records, no heap is built. The second loop then moves \<^verbatim>\<open>bids[0]\<close> to the last position
  and never touches that position again.
\<close>

lemma heapSort_unbuilt:
  assumes "2 \<le> length bids" "int_of_size (size_sub (length bids div 2) 1) < 0"
  shows "\<exists>out. heapSort bids = Some out \<and> length out = length bids \<and> mset out = mset bids \<and>
           out ! (length bids - 1) = bids ! 0"
proof -
  define n where "n = length bids"
  have ne: "bids \<noteq> []" and n0: "0 < n" and n1: "0 < n - 1" using assms(1) by (auto simp: n_def)
  have bl: "build_heap_loop bids n (int_of_size (size_sub (n div 2) 1)) = Some bids"
    using assms(2) by (subst build_heap_loop.simps) (simp add: n_def)
  define b1 where "b1 = bids[0 := bids ! (n - 1), n - 1 := bids ! 0]"
  have sw: "swap_at bids 0 (n - 1) = Some b1" using n0 by (simp add: swap_at_def b1_def n_def)
  have len1: "length b1 = n" by (simp add: b1_def n_def)
  have "n - 1 \<le> length b1" using len1 by simp
  from heapify_basic[OF this n1]
  obtain b2 where b2: "heapify b1 (n - 1) 0 = Some b2" "length b2 = length b1" "mset b2 = mset b1"
    "\<forall>k. k < 0 \<or> n - 1 \<le> k \<longrightarrow> b2 ! k = b1 ! k" by blast
  have "n - 1 - 1 < length b2" using b2(2) len1 n0 by simp
  from extract_loop_basic[OF this]
  obtain out where out: "extract_loop b2 (n - 1 - 1) = Some out" "length out = length b2"
    "mset out = mset b2" "\<forall>k. n - 1 - 1 < k \<longrightarrow> out ! k = b2 ! k" by blast
  have e: "extract_loop bids (n - 1) = Some out"
    using n1 sw b2(1) out(1) by (subst extract_loop.simps) simp
  have hs: "heapSort bids = Some out"
    using ne bl e size_sub_1[OF n0] by (simp add: heapSort_def n_def[symmetric])
  have "out ! (n - 1) = b2 ! (n - 1)" using out(4) n1 by simp
  also have "\<dots> = b1 ! (n - 1)" using b2(4) by simp
  also have "\<dots> = bids ! 0" using n0 by (simp add: b1_def n_def)
  finally have last: "out ! (n - 1) = bids ! 0" .
  have ms: "mset out = mset bids"
    using out(3) b2(3) mset_swap_upd[of 0 bids "n - 1"] n0 by (simp add: b1_def n_def)
  from hs out(2) b2(2) len1 ms last show ?thesis by (simp add: n_def)
qed

section \<open>The benchmark harness and the report\<close>

text \<open>
  \<^verbatim>\<open>struct BenchmarkResult { string algorithmName; size_t dataSize; double executionTimeMs; }\<close>.
  The time is a \<^verbatim>\<open>double\<close> computed as \<^verbatim>\<open>duration.count() / 1000.0\<close> from a whole number of
  microseconds; the model keeps it as the real number \<open>elapsed_us / 1000\<close> and leaves the
  rounding of the division aside.
\<close>

record BenchmarkResult =
  algorithmName :: string
  dataSize :: nat
  executionTimeMs :: real

text \<open>
  \<^verbatim>\<open>benchmarkSort\<close> is a template over the type of the function pointer it is given, and chooses
  the call by that type:
  \<^verbatim>\<open>
  if constexpr (is_same_v<SortFunc, decltype(&BidSorter::quickSort)> ||
      is_same_v<SortFunc, decltype(&BidSorter::mergeSort)>)
      sortFunction(bids, 0, bids.size() - 1);
  else
      sortFunction(bids);\<close>
  The two pointer types are the two constructors of \<open>SortFunc\<close>, and \<open>invoke_sort\<close> is the call.
\<close>

datatype SortFunc =
  UnarySort "Bid list \<Rightarrow> Bid list option"
| RangedSort "Bid list \<Rightarrow> nat \<Rightarrow> nat \<Rightarrow> Bid list option"

text \<open>
  \<^verbatim>\<open>BenchmarkResult benchmarkSort(SortFunc sortFunction, vector<Bid> bids, const string& algorithmName)\<close>
  takes the vector by value: the call copy-constructs the parameter from the caller's vector, and
  the sort runs on the parameter. A \<open>call_frame\<close> holds the two vector objects of such a call,
  the caller's and the parameter, so that the model can say which of them a call writes.

  The clock is the environment's: the value of \<^verbatim>\<open>duration.count()\<close>, the microseconds between
  the two readings of \<^verbatim>\<open>high_resolution_clock::now()\<close>, is the argument \<open>elapsed_us\<close>.
  \<^verbatim>\<open>
  if (bids.empty()) return BenchmarkResult(algorithmName, 0, 0.0);
  auto start = high_resolution_clock::now();
  (the call of sortFunction)
  auto end = high_resolution_clock::now();
  auto duration = duration_cast<microseconds>(end - start);
  return BenchmarkResult(algorithmName, bids.size(), duration.count() / 1000.0);\<close>
\<close>

record call_frame =
  caller_bids :: "Bid list"
  param_bids :: "Bid list"

definition invoke_sort :: "SortFunc \<Rightarrow> Bid list \<Rightarrow> Bid list option" where
  "invoke_sort sortFunction bids =
     (case sortFunction of
        RangedSort f \<Rightarrow> f bids 0 (size_sub (length bids) 1)
      | UnarySort f \<Rightarrow> f bids)"

definition benchmarkSort ::
  "SortFunc \<Rightarrow> string \<Rightarrow> int \<Rightarrow> call_frame \<Rightarrow> (BenchmarkResult \<times> call_frame) option" where
  "benchmarkSort sortFunction name elapsed_us fr =
     (let fr1 = fr\<lparr>param_bids := caller_bids fr\<rparr> in
      if param_bids fr1 = [] then
        Some (\<lparr>algorithmName = name, dataSize = 0, executionTimeMs = 0\<rparr>, fr1)
      else
        (case invoke_sort sortFunction (param_bids fr1) of
           None \<Rightarrow> None
         | Some sorted_bids \<Rightarrow>
             Some (\<lparr>algorithmName = name, dataSize = length sorted_bids,
                    executionTimeMs = real_of_int elapsed_us / 1000\<rparr>,
                   fr1\<lparr>param_bids := sorted_bids\<rparr>)))"

text \<open>
  \<^verbatim>\<open>displayBenchmarks\<close> prints one row per result. The column \<^verbatim>\<open>Complexity\<close> is a local string
  that starts empty and is assigned by comparing the name of the result:
  \<^verbatim>\<open>
  string complexity;
  if (result.algorithmName == "Selection Sort") complexity = "O(n^2)";
  else if (result.algorithmName == "Quick Sort") complexity = "O(n log n)";
  else if (result.algorithmName == "Merge Sort") complexity = "O(n log n)";
  else if (result.algorithmName == "Heap Sort") complexity = "O(n log n)";\<close>
  In the source the exponent of the first label is the character SUPERSCRIPT TWO, the two bytes
  \<open>0xC2 0xB2\<close> in UTF-8. A row of the printed table is modelled by its four column values; widths
  and number formatting are left out.
\<close>

definition complexity_of :: "BenchmarkResult \<Rightarrow> string" where
  "complexity_of result =
     (if algorithmName result = ''Selection Sort'' then ''O(n'' @ [CHR 0xC2, CHR 0xB2] @ '')''
      else if algorithmName result = ''Quick Sort'' then ''O(n log n)''
      else if algorithmName result = ''Merge Sort'' then ''O(n log n)''
      else if algorithmName result = ''Heap Sort'' then ''O(n log n)''
      else [])"

datatype report =
  Message string
| Table "(string \<times> nat \<times> real \<times> string) list"

definition displayBenchmarks :: "BenchmarkResult list \<Rightarrow> report" where
  "displayBenchmarks results =
     (if results = [] then Message ''No benchmark results to display.''
      else Table (map (\<lambda>result. (algorithmName result, dataSize result,
                                   executionTimeMs result, complexity_of result)) results))"

text \<open>
  \<^verbatim>\<open>void runBenchmarkComparison(const vector<Bid>& bids)\<close> prints a message when the vector is
  empty; otherwise it calls \<^verbatim>\<open>benchmarkSort\<close> four times with the caller's vector,
  \<^verbatim>\<open>
  results.push_back(benchmarkSort(&BidSorter::selectionSort, bids, "Selection Sort"));
  results.push_back(benchmarkSort(&BidSorter::quickSort, bids, "Quick Sort"));
  results.push_back(benchmarkSort(&BidSorter::mergeSort, bids, "Merge Sort"));
  results.push_back(benchmarkSort(&BidSorter::heapSort, bids, "Heap Sort"));
  displayBenchmarks(results);\<close>
  The argument \<open>elapsed\<close> gives the measured microseconds of the four runs.
\<close>

definition runBenchmarkComparison :: "(nat \<Rightarrow> int) \<Rightarrow> call_frame \<Rightarrow> (report \<times> call_frame) option" where
  "runBenchmarkComparison elapsed fr =
     (if caller_bids fr = [] then
        Some (Message ''No data available for benchmarking. Please load bids first.'', fr)
      else
        (case benchmarkSort (UnarySort selectionSort) ''Selection Sort'' (elapsed 0) fr of
           None \<Rightarrow> None
         | Some (r1, fr1) \<Rightarrow>
        (case benchmarkSort (RangedSort quickSort) ''Quick Sort'' (elapsed 1) fr1 of
           None \<Rightarrow> None
         | Some (r2, fr2) \<Rightarrow>
        (case benchmarkSort (RangedSort mergeSort) ''Merge Sort'' (elapsed 2) fr2 of
           None \<Rightarrow> None
         | Some (r3, fr3) \<Rightarrow>
        (case benchmarkSort (UnarySort heapSort) ''Heap Sort'' (elapsed 3) fr3 of
           None \<Rightarrow> None
         | Some (r4, fr4) \<Rightarrow> Some (displayBenchmarks [r1, r2, r3, r4], fr4))))))"

text \<open>
  \<open>bench_algorithms\<close> lists the four pairs of a sort function and a display name with which the
  program calls \<^verbatim>\<open>benchmarkSort\<close> (in \<^verbatim>\<open>runBenchmarkComparison\<close> and in the menu of \<^verbatim>\<open>main\<close>). A
  \<open>bench_call\<close> is one call of the harness, a single run or a sweep, and \<open>bench_calls\<close> performs a
  sequence of them on the same caller's vector. A call is \<open>known_call\<close> when it is a sweep or a
  run with one of the four pairs.
\<close>

definition bench_algorithms :: "(SortFunc \<times> string) list" where
  "bench_algorithms =
     [(UnarySort selectionSort, ''Selection Sort''), (RangedSort quickSort, ''Quick Sort''),
      (RangedSort mergeSort, ''Merge Sort''), (UnarySort heapSort, ''Heap Sort'')]"

datatype bench_call = Run SortFunc string int | Sweep "nat \<Rightarrow> int"

fun bench_call_step :: "bench_call \<Rightarrow> call_frame \<Rightarrow> call_frame option" where
  "bench_call_step (Run sortFunction name elapsed_us) fr =
     map_option snd (benchmarkSort sortFunction name elapsed_us fr)"
| "bench_call_step (Sweep elapsed) fr = map_option snd (runBenchmarkComparison elapsed fr)"

fun bench_calls :: "bench_call list \<Rightarrow> call_frame \<Rightarrow> call_frame option" where
  "bench_calls [] fr = Some fr"
| "bench_calls (c # cs) fr =
     (case bench_call_step c fr of None \<Rightarrow> None | Some fr' \<Rightarrow> bench_calls cs fr')"

fun known_call :: "bench_call \<Rightarrow> bool" where
  "known_call (Run sortFunction name elapsed_us) \<longleftrightarrow> (sortFunction, name) \<in> set bench_algorithms"
| "known_call (Sweep elapsed) \<longleftrightarrow> True"

subsection \<open>Facts about the harness\<close>

lemma invoke_sort_algorithms:
  assumes "(f, name) \<in> set bench_algorithms"
  shows "\<exists>out. invoke_sort f bids = Some out \<and> length out = length bids \<and> mset out = mset bids"
proof -
  from assms consider "f = UnarySort selectionSort" | "f = RangedSort quickSort"
    | "f = RangedSort mergeSort" | "f = UnarySort heapSort"
    by (auto simp: bench_algorithms_def)
  then show ?thesis
  proof cases
    case 1 then show ?thesis using selectionSort_spec[of bids] by (auto simp: invoke_sort_def)
  next
    case 2 then show ?thesis using quickSort_full[of bids] by (auto simp: invoke_sort_def)
  next
    case 3 then show ?thesis using mergeSort_full[of bids] by (simp add: invoke_sort_def)
  next
    case 4 then show ?thesis using heapSort_basic[of bids] by (auto simp: invoke_sort_def)
  qed
qed

lemma benchmarkSort_caller:
  "benchmarkSort f name t fr = Some (r, fr') \<Longrightarrow> caller_bids fr' = caller_bids fr"
  by (auto simp: benchmarkSort_def Let_def split: if_splits option.splits)

lemma benchmarkSort_algorithms:
  assumes "(f, name) \<in> set bench_algorithms"
  shows "\<exists>r fr'. benchmarkSort f name t fr = Some (r, fr') \<and> caller_bids fr' = caller_bids fr \<and>
           algorithmName r = name \<and> dataSize r = length (caller_bids fr) \<and>
           executionTimeMs r = (if caller_bids fr = [] then 0 else real_of_int t / 1000)"
proof (cases "caller_bids fr = []")
  case True
  then show ?thesis by (simp add: benchmarkSort_def)
next
  case False
  from invoke_sort_algorithms[OF assms, of "caller_bids fr"]
  obtain out where "invoke_sort f (caller_bids fr) = Some out" "length out = length (caller_bids fr)"
    by blast
  then show ?thesis using False by (simp add: benchmarkSort_def)
qed

lemma runBenchmarkComparison_spec:
  "\<exists>rep fr'. runBenchmarkComparison elapsed fr = Some (rep, fr') \<and> caller_bids fr' = caller_bids fr \<and>
     (caller_bids fr \<noteq> [] \<longrightarrow>
        rep = Table [(''Selection Sort'', length (caller_bids fr), real_of_int (elapsed 0) / 1000,
                        ''O(n'' @ [CHR 0xC2, CHR 0xB2] @ '')''),
                     (''Quick Sort'', length (caller_bids fr), real_of_int (elapsed 1) / 1000, ''O(n log n)''),
                     (''Merge Sort'', length (caller_bids fr), real_of_int (elapsed 2) / 1000, ''O(n log n)''),
                     (''Heap Sort'', length (caller_bids fr), real_of_int (elapsed 3) / 1000, ''O(n log n)'')])"
proof (cases "caller_bids fr = []")
  case True
  then show ?thesis by (simp add: runBenchmarkComparison_def)
next
  case False
  have in1: "(UnarySort selectionSort, ''Selection Sort'') \<in> set bench_algorithms"
    and in2: "(RangedSort quickSort, ''Quick Sort'') \<in> set bench_algorithms"
    and in3: "(RangedSort mergeSort, ''Merge Sort'') \<in> set bench_algorithms"
    and in4: "(UnarySort heapSort, ''Heap Sort'') \<in> set bench_algorithms"
    by (simp_all add: bench_algorithms_def)
  from benchmarkSort_algorithms[OF in1, of "elapsed 0" fr] False
  obtain r1 fr1 where r1: "benchmarkSort (UnarySort selectionSort) ''Selection Sort'' (elapsed 0) fr = Some (r1, fr1)"
    "caller_bids fr1 = caller_bids fr" "algorithmName r1 = ''Selection Sort''"
    "dataSize r1 = length (caller_bids fr)" "executionTimeMs r1 = real_of_int (elapsed 0) / 1000"
    by auto
  from benchmarkSort_algorithms[OF in2, of "elapsed 1" fr1] False r1(2)
  obtain r2 fr2 where r2: "benchmarkSort (RangedSort quickSort) ''Quick Sort'' (elapsed 1) fr1 = Some (r2, fr2)"
    "caller_bids fr2 = caller_bids fr" "algorithmName r2 = ''Quick Sort''"
    "dataSize r2 = length (caller_bids fr)" "executionTimeMs r2 = real_of_int (elapsed 1) / 1000"
    by auto
  from benchmarkSort_algorithms[OF in3, of "elapsed 2" fr2] False r2(2)
  obtain r3 fr3 where r3: "benchmarkSort (RangedSort mergeSort) ''Merge Sort'' (elapsed 2) fr2 = Some (r3, fr3)"
    "caller_bids fr3 = caller_bids fr" "algorithmName r3 = ''Merge Sort''"
    "dataSize r3 = length (caller_bids fr)" "executionTimeMs r3 = real_of_int (elapsed 2) / 1000"
    by auto
  from benchmarkSort_algorithms[OF in4, of "elapsed 3" fr3] False r3(2)
  obtain r4 fr4 where r4: "benchmarkSort (UnarySort heapSort) ''Heap Sort'' (elapsed 3) fr3 = Some (r4, fr4)"
    "caller_bids fr4 = caller_bids fr" "algorithmName r4 = ''Heap Sort''"
    "dataSize r4 = length (caller_bids fr)" "executionTimeMs r4 = real_of_int (elapsed 3) / 1000"
    by auto
  have "runBenchmarkComparison elapsed fr = Some (displayBenchmarks [r1, r2, r3, r4], fr4)"
    using False r1(1) r2(1) r3(1) r4(1) by (simp add: runBenchmarkComparison_def)
  moreover have "displayBenchmarks [r1, r2, r3, r4] =
      Table [(''Selection Sort'', length (caller_bids fr), real_of_int (elapsed 0) / 1000,
                        ''O(n'' @ [CHR 0xC2, CHR 0xB2] @ '')''),
                     (''Quick Sort'', length (caller_bids fr), real_of_int (elapsed 1) / 1000, ''O(n log n)''),
                     (''Merge Sort'', length (caller_bids fr), real_of_int (elapsed 2) / 1000, ''O(n log n)''),
                     (''Heap Sort'', length (caller_bids fr), real_of_int (elapsed 3) / 1000, ''O(n log n)'')]"
    by (simp add: displayBenchmarks_def complexity_of_def r1 r2 r3 r4)
  ultimately show ?thesis using r4(2) by simp
qed

lemma bench_call_step_known:
  assumes "known_call c"
  shows "\<exists>fr'. bench_call_step c fr = Some fr' \<and> caller_bids fr' = caller_bids fr"
proof (cases c)
  case (Run f name t)
  with assms have "(f, name) \<in> set bench_algorithms" by simp
  from benchmarkSort_algorithms[OF this, of t fr] Run show ?thesis by auto
next
  case (Sweep elapsed)
  with runBenchmarkComparison_spec[of elapsed fr] show ?thesis by auto
qed

section \<open>Consequences used by the claims\<close>

lemma sorted_titles_unique:
  assumes "sorted (map title xs)" "sorted (map title ys)" "mset xs = mset ys"
  shows "map title xs = map title ys"
proof -
  have "mset (map title xs) = mset (map title ys)" using assms(3) by simp
  from properties_for_sort[OF this assms(1)] have "sort (map title ys) = map title xs" .
  moreover have "sort (map title ys) = map title ys" using assms(2) by (rule sort_key_id_if_sorted[of "\<lambda>x. x", simplified])
  ultimately show ?thesis by simp
qed

lemma distinct_titles_eq:
  assumes "map title xs = map title ys" "mset xs = mset ys" "distinct (map title xs)"
  shows "xs = ys"
proof (rule nth_equalityI)
  show len: "length xs = length ys" using assms(1) by (rule map_eq_imp_length_eq)
  fix i assume i: "i < length xs"
  have inj: "inj_on title (set xs)" using assms(3) by (simp add: distinct_map)
  have "ys ! i \<in> set ys" using i len by simp
  then have a: "ys ! i \<in> set xs" using assms(2) by (metis mset_eq_setD)
  have b: "xs ! i \<in> set xs" using i by simp
  have "title (xs ! i) = title (ys ! i)"
    using assms(1) i len by (metis nth_map)
  with inj a b show "xs ! i = ys ! i" by (auto dest: inj_onD)
qed

lemma filter_eq_append_ConsD:
  "filter P ys = A @ x # R \<Longrightarrow> \<exists>us vs. ys = us @ x # vs \<and> filter P vs = R"
proof (induction ys arbitrary: A)
  case Nil
  then show ?case by simp
next
  case (Cons y ys)
  show ?case
  proof (cases "P y")
    case False
    with Cons.prems have "filter P ys = A @ x # R" by simp
    from Cons.IH[OF this] obtain us vs where "ys = us @ x # vs" "filter P vs = R" by blast
    then have "y # ys = (y # us) @ x # vs \<and> filter P vs = R" by simp
    then show ?thesis by blast
  next
    case True
    with Cons.prems have e: "y # filter P ys = A @ x # R" by simp
    show ?thesis
    proof (cases A)
      case Nil
      with e have "y # ys = [] @ x # ys \<and> filter P ys = R" by simp
      then show ?thesis by blast
    next
      case (Cons a A')
      with e have "filter P ys = A' @ x # R" by simp
      from Cons.IH[OF this] obtain us vs where "ys = us @ x # vs" "filter P vs = R" by blast
      then have "y # ys = (y # us) @ x # vs \<and> filter P vs = R" by simp
      then show ?thesis by blast
    qed
  qed
qed

lemma filter_keeps_order:
  assumes eq: "filter P ys = filter P xs" and ij: "i < j" "j < length xs"
    and P: "P (xs ! i)" "P (xs ! j)"
  shows "\<exists>i' j'. i' < j' \<and> j' < length ys \<and> ys ! i' = xs ! i \<and> ys ! j' = xs ! j"
proof -
  have il: "i < length xs" using ij by simp
  have x1: "xs = take i xs @ xs ! i # drop (Suc i) xs" using il by (rule id_take_nth_drop)
  have jl: "j - Suc i < length (drop (Suc i) xs)" using ij by simp
  have nj: "drop (Suc i) xs ! (j - Suc i) = xs ! j" using ij by simp
  from id_take_nth_drop[OF jl] nj
  obtain B C where x2: "drop (Suc i) xs = B @ xs ! j # C" by metis
  have "filter P xs = filter P (take i xs) @ xs ! i # filter P (B @ xs ! j # C)"
    by (subst x1) (simp add: P(1) x2)
  then have "filter P ys = filter P (take i xs) @ xs ! i # filter P (B @ xs ! j # C)"
    using eq by simp
  from filter_eq_append_ConsD[OF this]
  obtain us vs where ys: "ys = us @ xs ! i # vs" "filter P vs = filter P (B @ xs ! j # C)" by blast
  have "filter P vs = filter P B @ xs ! j # filter P C" using ys(2) P(2) by simp
  from filter_eq_append_ConsD[OF this]
  obtain us' vs' where vs: "vs = us' @ xs ! j # vs'" by blast
  have y: "ys = us @ xs ! i # us' @ xs ! j # vs'" using ys(1) vs by simp
  have a: "ys ! length us = xs ! i" by (simp add: y)
  have b: "ys ! (length us + 1 + length us') = xs ! j"
    by (simp add: y nth_append)
  have c: "length us + 1 + length us' < length ys" by (simp add: y)
  show ?thesis
    by (rule exI[of _ "length us"], rule exI[of _ "length us + 1 + length us'"]) (use a b c in simp)
qed

section \<open>Sample data\<close>

text \<open>
  Records for the concrete instances below: the three titles of the scenario
  \<^verbatim>\<open>["Zebra", "Apple", "Mango"]\<close>, and two records that share the title \<^verbatim>\<open>"A"\<close> and differ
  in their identifiers \<^verbatim>\<open>"1"\<close> and \<^verbatim>\<open>"2"\<close>.
\<close>

definition bid_zebra :: Bid where
  "bid_zebra = \<lparr>bidId = ''98109'', title = ''Zebra'', fund = ''General Fund'', amount = 27\<rparr>"

definition bid_apple :: Bid where
  "bid_apple = \<lparr>bidId = ''98110'', title = ''Apple'', fund = ''Enterprise'', amount = 6\<rparr>"

definition bid_mango :: Bid where
  "bid_mango = \<lparr>bidId = ''98111'', title = ''Mango'', fund = ''General Fund'', amount = 0\<rparr>"

definition bid_a1 :: Bid where
  "bid_a1 = \<lparr>bidId = ''1'', title = ''A'', fund = ''General Fund'', amount = 5\<rparr>"

definition bid_a2 :: Bid where
  "bid_a2 = \<lparr>bidId = ''2'', title = ''A'', fund = ''General Fund'', amount = 5\<rparr>"

text \<open>
  Two records for a vector of \<open>2 ^ 32 + 2\<close> of them: \<open>2 ^ 32 + 1\<close> copies of \<open>bid_b\<close>, then
  \<open>bid_c\<close>. For this size \<^verbatim>\<open>n / 2 - 1\<close> in \<^verbatim>\<open>heapSort\<close> is \<open>2 ^ 31\<close>, which converts to the
  \<^verbatim>\<open>int\<close> \<open>- 2 ^ 31\<close>.
\<close>

definition bid_b :: Bid where
  "bid_b = \<lparr>bidId = ''1'', title = ''b'', fund = [], amount = 0\<rparr>"

definition bid_c :: Bid where
  "bid_c = \<lparr>bidId = ''2'', title = ''c'', fund = [], amount = 0\<rparr>"

lemmas sample_defs = bid_zebra_def bid_apple_def bid_mango_def bid_a1_def bid_a2_def

lemmas engine_eval =
  selectionSort_def sel_loop.simps find_min.simps
  quickSort.simps partition_bids_def partition_run_def part_loop.simps lo_scan.simps hi_scan.simps
  heapSort_def build_heap_loop.simps extract_loop.simps heapify.simps pick_larger_def int_of_size_def
  read_at_def swap_at_def store_at_def size_sub_def

section \<open>The claims\<close>

text \<open>
  A call ``over the full range'' is the call the program makes, with the bounds \<^verbatim>\<open>0\<close> and
  \<^verbatim>\<open>bids.size() - 1\<close>; on the empty vector the second bound wraps around and the call returns at
  its test for emptiness.
\<close>

subsection \<open>C1: the output is ascending by title\<close>

text \<open>
  C1 states that for every input sequence each of the four sorts leaves the sequence ascending
  by title: for all indices \<open>i < j\<close>, \<open>output[i].title \<le> output[j].title\<close>.

  \<^verbatim>\<open>heapSort\<close> breaks this on a vector of \<open>2 ^ 32 + 2\<close> records: it returns, and its output has
  two positions \<open>i < j\<close> with the title at \<open>j\<close> strictly below the title at \<open>i\<close>. The loop that
  builds the heap counts with an \<^verbatim>\<open>int\<close>; for this size its start value \<^verbatim>\<open>n / 2 - 1 = 2 ^ 31\<close>
  converts to a negative number and the loop does not run.
\<close>

theorem heapSort_unsorted_beyond_int_range:
  "\<exists>out i j. heapSort (replicate (2 ^ 32 + 1) bid_b @ [bid_c]) = Some out \<and>
     i < j \<and> j < length out \<and> title (out ! j) < title (out ! i)"
proof -
  define big where "big = replicate (2 ^ 32 + 1) bid_b @ [bid_c]"
  have len: "length big = 2 ^ 32 + 2" by (simp add: big_def)
  have neg: "int_of_size (size_sub (length big div 2) 1) < 0"
    unfolding len by (simp add: size_sub_def int_of_size_def)
  have two: "2 \<le> length big" unfolding len by simp
  from heapSort_unbuilt[OF two neg]
  obtain out where out: "heapSort big = Some out" "length out = length big" "mset out = mset big"
    "out ! (length big - 1) = big ! 0" by blast
  have b0: "big ! 0 = bid_b" by (simp add: big_def nth_append)
  have "bid_c \<in> set big" by (simp add: big_def)
  then have "bid_c \<in> set out" using out(3) by (metis mset_eq_setD)
  then obtain k where k: "k < length out" "out ! k = bid_c" by (auto simp: in_set_conv_nth)
  have "bid_c \<noteq> bid_b" by (simp add: bid_b_def bid_c_def)
  then have "k \<noteq> length big - 1" using k(2) out(4) b0 by auto
  then have kl: "k < length big - 1" "length big - 1 < length out" using k(1) out(2) two by auto
  have "title (out ! (length big - 1)) < title (out ! k)"
    using k(2) out(4) b0 by (simp add: bid_b_def bid_c_def)
  with out(1) kl show ?thesis unfolding big_def by blast
qed

text \<open>
  Up to \<open>2 ^ 32 + 1\<close> records the claim holds for \<^verbatim>\<open>heapSort\<close>, and it holds for the other three
  sorts on every input: each call returns, and what it returns is sorted by title.
\<close>

theorem sorts_ascending_by_title:
  "(\<exists>out. selectionSort bids = Some out \<and> sorted (map title out)) \<and>
   (\<exists>out. quickSort bids 0 (size_sub (length bids) 1) = Some out \<and> sorted (map title out)) \<and>
   (\<exists>out. mergeSort bids 0 (size_sub (length bids) 1) = Some out \<and> sorted (map title out)) \<and>
   (length bids \<le> 2 ^ 32 + 1 \<longrightarrow> (\<exists>out. heapSort bids = Some out \<and> sorted (map title out)))"
proof (intro conjI impI)
  show "\<exists>out. selectionSort bids = Some out \<and> sorted (map title out)"
    using selectionSort_spec[of bids] by blast
  show "\<exists>out. quickSort bids 0 (size_sub (length bids) 1) = Some out \<and> sorted (map title out)"
    using quickSort_full[of bids] by blast
  show "\<exists>out. mergeSort bids 0 (size_sub (length bids) 1) = Some out \<and> sorted (map title out)"
    using mergeSort_full[of bids] by simp
  assume "length bids \<le> 2 ^ 32 + 1"
  then show "\<exists>out. heapSort bids = Some out \<and> sorted (map title out)"
    using heapSort_basic[of bids] heapSort_sorted[of bids] by blast
qed

theorem sorts_ascending_by_title_witness:
  "length [bid_zebra, bid_apple, bid_mango] \<le> 2 ^ 32 + 1 \<and>
   (\<exists>out. selectionSort [bid_zebra, bid_apple, bid_mango] = Some out \<and> sorted (map title out)) \<and>
   (\<exists>out. quickSort [bid_zebra, bid_apple, bid_mango] 0
      (size_sub (length [bid_zebra, bid_apple, bid_mango]) 1) = Some out \<and> sorted (map title out)) \<and>
   (\<exists>out. mergeSort [bid_zebra, bid_apple, bid_mango] 0
      (size_sub (length [bid_zebra, bid_apple, bid_mango]) 1) = Some out \<and> sorted (map title out)) \<and>
   (\<exists>out. heapSort [bid_zebra, bid_apple, bid_mango] = Some out \<and> sorted (map title out))"
  using sorts_ascending_by_title[of "[bid_zebra, bid_apple, bid_mango]"]
  by simp

subsection \<open>C2: the output is a permutation of the input\<close>

text \<open>
  C2: for every input sequence and each of the four sorts, the call returns and the multiset of
  records it leaves is the multiset it was given. Records are compared in all four fields, so no
  record is added, dropped or changed in a field.
\<close>

theorem sorts_permute_records:
  "(\<exists>out. selectionSort bids = Some out \<and> mset out = mset bids) \<and>
   (\<exists>out. quickSort bids 0 (size_sub (length bids) 1) = Some out \<and> mset out = mset bids) \<and>
   (\<exists>out. mergeSort bids 0 (size_sub (length bids) 1) = Some out \<and> mset out = mset bids) \<and>
   (\<exists>out. heapSort bids = Some out \<and> mset out = mset bids)"
proof (intro conjI)
  show "\<exists>out. selectionSort bids = Some out \<and> mset out = mset bids"
    using selectionSort_spec[of bids] by blast
  show "\<exists>out. quickSort bids 0 (size_sub (length bids) 1) = Some out \<and> mset out = mset bids"
    using quickSort_full[of bids] by blast
  show "\<exists>out. mergeSort bids 0 (size_sub (length bids) 1) = Some out \<and> mset out = mset bids"
    using mergeSort_full[of bids] by simp
  show "\<exists>out. heapSort bids = Some out \<and> mset out = mset bids"
    using heapSort_basic[of bids] by blast
qed

theorem sorts_permute_records_witness:
  "(\<exists>out. selectionSort [bid_zebra, bid_a2, bid_a1] = Some out \<and>
      mset out = mset [bid_zebra, bid_a2, bid_a1]) \<and>
   (\<exists>out. quickSort [bid_zebra, bid_a2, bid_a1] 0 (size_sub (length [bid_zebra, bid_a2, bid_a1]) 1) =
      Some out \<and> mset out = mset [bid_zebra, bid_a2, bid_a1]) \<and>
   (\<exists>out. mergeSort [bid_zebra, bid_a2, bid_a1] 0 (size_sub (length [bid_zebra, bid_a2, bid_a1]) 1) =
      Some out \<and> mset out = mset [bid_zebra, bid_a2, bid_a1]) \<and>
   (\<exists>out. heapSort [bid_zebra, bid_a2, bid_a1] = Some out \<and>
      mset out = mset [bid_zebra, bid_a2, bid_a1])"
  by (rule sorts_permute_records)

subsection \<open>C3: the partition step stays inside its range\<close>

text \<open>
  C3: in every call of the partition step with \<open>0 \<le> beg \<le> fin < length bids\<close>, every index at
  which the vector is read or swapped lies in \<open>[beg, fin]\<close>, and neither cursor steps outside
  the range. The original step returns, which excludes the wrap-around of its high cursor, and
  every entry of its access list lies in the range; it reads \<^verbatim>\<open>bids[lowIndex]\<close> and
  \<^verbatim>\<open>bids[highIndex]\<close> at every value the cursors take, so the list holds all of these. The
  enhanced step returns at once when \<open>beg = fin\<close> and otherwise makes the very same accesses
  with the same result: its two bound tests never fail.
\<close>

theorem partition_accesses_within_range:
  assumes "beg \<le> fin" "fin < length bids"
  shows "\<exists>out p trace. partition_original_run bids beg fin = Some (out, p, trace) \<and>
           (\<forall>i \<in> set trace. beg \<le> i \<and> i \<le> fin) \<and> beg \<le> p \<and> p \<le> fin \<and>
           partition_run bids beg fin =
             (if beg < fin then Some (out, p, trace) else Some (bids, beg, []))"
proof (cases "beg < fin")
  case True
  from partition_run_spec[OF True assms(2)]
  obtain out p trace where "partition_run bids beg fin = Some (out, p, trace)"
    "partition_original_run bids beg fin = Some (out, p, trace)" "beg \<le> p" "p < fin"
    "set trace \<subseteq> {beg..fin}"
    by blast
  then have "partition_original_run bids beg fin = Some (out, p, trace) \<and>
      (\<forall>i \<in> set trace. beg \<le> i \<and> i \<le> fin) \<and> beg \<le> p \<and> p \<le> fin \<and>
      partition_run bids beg fin = (if beg < fin then Some (out, p, trace) else Some (bids, beg, []))"
    using True by auto
  then show ?thesis by blast
next
  case False
  then have e: "fin = beg" using assms(1) by simp
  from partition_original_run_single[of beg bids] assms(2) e
  obtain out p trace where "partition_original_run bids beg beg = Some (out, p, trace)"
    "set trace \<subseteq> {beg..beg}" "p = beg"
    by auto
  then have "partition_original_run bids beg fin = Some (out, p, trace) \<and>
      (\<forall>i \<in> set trace. beg \<le> i \<and> i \<le> fin) \<and> beg \<le> p \<and> p \<le> fin \<and>
      partition_run bids beg fin = (if beg < fin then Some (out, p, trace) else Some (bids, beg, []))"
    using e by (auto simp: partition_run_def)
  then show ?thesis by blast
qed

theorem partition_accesses_within_range_witness:
  "(1::nat) \<le> 3 \<and> 3 < length [bid_mango, bid_zebra, bid_a1, bid_apple, bid_a2] \<and>
   (\<exists>out p trace.
      partition_original_run [bid_mango, bid_zebra, bid_a1, bid_apple, bid_a2] 1 3 =
        Some (out, p, trace) \<and>
      (\<forall>i \<in> set trace. 1 \<le> i \<and> i \<le> 3) \<and> 1 \<le> p \<and> p \<le> 3 \<and>
      partition_run [bid_mango, bid_zebra, bid_a1, bid_apple, bid_a2] 1 3 = Some (out, p, trace))"
  using partition_accesses_within_range[of 1 3 "[bid_mango, bid_zebra, bid_a1, bid_apple, bid_a2]"]
  by simp

subsection \<open>C4: merge sort is stable\<close>

text \<open>
  C4: \<^verbatim>\<open>mergeSort\<close> over the full range returns the records sorted by title with the records of
  every title in the order they had in the input. First as an equation between the subsequences
  of one title, then for two records: if the input holds two records of one title at positions
  \<open>i < j\<close>, the output holds the first before the second.
\<close>

theorem mergeSort_stable:
  "\<exists>out. mergeSort bids 0 (size_sub (length bids) 1) = Some out \<and> sorted (map title out) \<and>
     (\<forall>t. filter (\<lambda>b. title b = t) out = filter (\<lambda>b. title b = t) bids) \<and>
     (\<forall>i j. i < j \<and> j < length bids \<and> title (bids ! i) = title (bids ! j) \<longrightarrow>
        (\<exists>i' j'. i' < j' \<and> j' < length out \<and> out ! i' = bids ! i \<and> out ! j' = bids ! j))"
proof -
  let ?out = "sort_key title bids"
  have st: "filter (\<lambda>b. title b = t) ?out = filter (\<lambda>b. title b = t) bids" for t
    by (rule sort_key_stable)
  have "\<exists>i' j'. i' < j' \<and> j' < length ?out \<and> ?out ! i' = bids ! i \<and> ?out ! j' = bids ! j"
    if "i < j \<and> j < length bids \<and> title (bids ! i) = title (bids ! j)" for i j
    by (rule filter_keeps_order[OF st[of "title (bids ! j)"]]) (use that in simp_all)
  then show ?thesis using st mergeSort_full[of bids] by simp
qed

theorem mergeSort_stable_witness:
  "\<exists>out. mergeSort [bid_zebra, bid_a1, bid_apple, bid_a2] 0
       (size_sub (length [bid_zebra, bid_a1, bid_apple, bid_a2]) 1) = Some out \<and>
     sorted (map title out) \<and> filter (\<lambda>b. title b = ''A'') out = [bid_a1, bid_a2]"
proof -
  let ?W = "[bid_zebra, bid_a1, bid_apple, bid_a2]"
  from mergeSort_stable[of ?W]
  obtain out where o: "mergeSort ?W 0 (size_sub (length ?W) 1) = Some out" "sorted (map title out)"
    "\<forall>t. filter (\<lambda>b. title b = t) out = filter (\<lambda>b. title b = t) ?W"
    by blast
  have "filter (\<lambda>b. title b = ''A'') ?W = [bid_a1, bid_a2]" by (simp add: sample_defs)
  with o(3) have "filter (\<lambda>b. title b = ''A'') out = [bid_a1, bid_a2]" by simp
  with o(1,2) show ?thesis by blast
qed

subsection \<open>C5: idempotence\<close>

text \<open>
  C5 states that each of the four sorts returns an already sorted sequence unchanged, and that
  sorting twice gives the same sequence as sorting once.

  This fails where titles repeat: \<^verbatim>\<open>quickSort\<close> and \<^verbatim>\<open>heapSort\<close> exchange records of one
  title. On the sorted input of the two records titled \<^verbatim>\<open>"A"\<close> each of them returns the two in
  the other order, and a second call returns them in the first order again.
\<close>

theorem quickSort_reorders_sorted_ties:
  "sorted (map title [bid_a1, bid_a2]) \<and>
   quickSort [bid_a1, bid_a2] 0 (size_sub (length [bid_a1, bid_a2]) 1) = Some [bid_a2, bid_a1] \<and>
   quickSort [bid_a2, bid_a1] 0 (size_sub (length [bid_a2, bid_a1]) 1) = Some [bid_a1, bid_a2] \<and>
   heapSort [bid_a1, bid_a2] = Some [bid_a2, bid_a1] \<and>
   heapSort [bid_a2, bid_a1] = Some [bid_a1, bid_a2] \<and>
   [bid_a2, bid_a1] \<noteq> [bid_a1, bid_a2]"
  by (simp add: engine_eval sample_defs)

text \<open>
  C5, amended. \<^verbatim>\<open>selectionSort\<close> and \<^verbatim>\<open>mergeSort\<close> are idempotent as C5 says.
  \<^verbatim>\<open>quickSort\<close>, and \<^verbatim>\<open>heapSort\<close> up to \<open>2 ^ 32 + 1\<close> records, are idempotent in the sequence of
  titles: a sorted input keeps its sequence of titles, and a second sort keeps the sequence of
  titles of the first; where the titles of the input are pairwise distinct, the records
  themselves stay where they are.
\<close>

theorem sorts_idempotent_up_to_ties:
  "(sorted (map title bids) \<longrightarrow>
      selectionSort bids = Some bids \<and>
      mergeSort bids 0 (size_sub (length bids) 1) = Some bids \<and>
      (\<exists>out. quickSort bids 0 (size_sub (length bids) 1) = Some out \<and>
         map title out = map title bids \<and> (distinct (map title bids) \<longrightarrow> out = bids)) \<and>
      (length bids \<le> 2 ^ 32 + 1 \<longrightarrow>
         (\<exists>out. heapSort bids = Some out \<and>
            map title out = map title bids \<and> (distinct (map title bids) \<longrightarrow> out = bids)))) \<and>
   (\<exists>out. selectionSort bids = Some out \<and> selectionSort out = Some out) \<and>
   (\<exists>out. mergeSort bids 0 (size_sub (length bids) 1) = Some out \<and>
      mergeSort out 0 (size_sub (length out) 1) = Some out) \<and>
   (\<exists>out out2. quickSort bids 0 (size_sub (length bids) 1) = Some out \<and>
      quickSort out 0 (size_sub (length out) 1) = Some out2 \<and>
      map title out2 = map title out \<and> (distinct (map title bids) \<longrightarrow> out2 = out)) \<and>
   (length bids \<le> 2 ^ 32 + 1 \<longrightarrow>
      (\<exists>out out2. heapSort bids = Some out \<and> heapSort out = Some out2 \<and>
         map title out2 = map title out \<and> (distinct (map title bids) \<longrightarrow> out2 = out)))"
proof -
  \<comment> \<open>what a sort that permutes and sorts does to a sorted input\<close>
  have keep: "map title out = map title xs \<and> (distinct (map title xs) \<longrightarrow> out = xs)"
    if "sorted (map title xs)" "sorted (map title out)" "mset out = mset xs" for out xs :: "Bid list"
  proof -
    have t: "map title out = map title xs"
      using sorted_titles_unique[OF that(2,1,3)] .
    have "out = xs" if d: "distinct (map title xs)"
      by (rule distinct_titles_eq[OF t \<open>mset out = mset xs\<close>]) (use d t in simp)
    with t show ?thesis by simp
  qed
  have dist: "distinct (map title out) = distinct (map title xs)"
    if "mset out = mset xs" for out xs :: "Bid list"
  proof -
    have "mset (map title out) = mset (map title xs)" using that by simp
    then show ?thesis by (rule mset_eq_imp_distinct_iff)
  qed
  obtain qs where qs: "quickSort bids 0 (size_sub (length bids) 1) = Some qs"
    "mset qs = mset bids" "sorted (map title qs)"
    using quickSort_full[of bids] by blast
  obtain qs2 where qs2: "quickSort qs 0 (size_sub (length qs) 1) = Some qs2"
    "mset qs2 = mset qs" "sorted (map title qs2)"
    using quickSort_full[of qs] by blast
  obtain ss where ss: "selectionSort bids = Some ss" "sorted (map title ss)"
    using selectionSort_spec[of bids] by blast
  have ms: "mergeSort bids 0 (size_sub (length bids) 1) = Some (sort_key title bids)"
    by (rule mergeSort_full)
  have ms2: "mergeSort (sort_key title bids) 0 (size_sub (length (sort_key title bids)) 1) =
      Some (sort_key title bids)"
    using mergeSort_full[of "sort_key title bids"] by (simp add: sort_key_id_if_sorted)
  have A: "selectionSort bids = Some bids" if "sorted (map title bids)"
    using that by (rule selectionSort_sorted_id)
  have B: "mergeSort bids 0 (size_sub (length bids) 1) = Some bids" if "sorted (map title bids)"
    using ms that by (simp add: sort_key_id_if_sorted)
  have C: "\<exists>out. quickSort bids 0 (size_sub (length bids) 1) = Some out \<and>
         map title out = map title bids \<and> (distinct (map title bids) \<longrightarrow> out = bids)"
    if "sorted (map title bids)"
    using qs(1) keep[OF that qs(3,2)] by blast
  have D: "\<exists>out. heapSort bids = Some out \<and>
            map title out = map title bids \<and> (distinct (map title bids) \<longrightarrow> out = bids)"
    if "sorted (map title bids)" "length bids \<le> 2 ^ 32 + 1"
  proof -
    obtain hs where hs: "heapSort bids = Some hs" "mset hs = mset bids"
      using heapSort_basic[of bids] by blast
    have "sorted (map title hs)" using heapSort_sorted[OF that(2) hs(1)] .
    from keep[OF that(1) this hs(2)] hs(1) show ?thesis by blast
  qed
  have E: "\<exists>out. selectionSort bids = Some out \<and> selectionSort out = Some out"
    using ss selectionSort_sorted_id[of ss] by blast
  have F: "\<exists>out. mergeSort bids 0 (size_sub (length bids) 1) = Some out \<and>
      mergeSort out 0 (size_sub (length out) 1) = Some out"
    using ms ms2 by blast
  have G: "\<exists>out out2. quickSort bids 0 (size_sub (length bids) 1) = Some out \<and>
      quickSort out 0 (size_sub (length out) 1) = Some out2 \<and>
      map title out2 = map title out \<and> (distinct (map title bids) \<longrightarrow> out2 = out)"
    using qs(1) qs2(1) keep[OF qs(3) qs2(3,2)] dist[OF qs(2)] by blast
  have H: "\<exists>out out2. heapSort bids = Some out \<and> heapSort out = Some out2 \<and>
         map title out2 = map title out \<and> (distinct (map title bids) \<longrightarrow> out2 = out)"
    if "length bids \<le> 2 ^ 32 + 1"
  proof -
    obtain hs where hs: "heapSort bids = Some hs" "mset hs = mset bids" "length hs = length bids"
      using heapSort_basic[of bids] by blast
    obtain hs2 where hs2: "heapSort hs = Some hs2" "mset hs2 = mset hs"
      using heapSort_basic[of hs] by blast
    have s1: "sorted (map title hs)" using heapSort_sorted[OF that hs(1)] .
    have "length hs \<le> 2 ^ 32 + 1" using that hs(3) by simp
    from heapSort_sorted[OF this hs2(1)] have s2: "sorted (map title hs2)" .
    from keep[OF s1 s2 hs2(2)] dist[OF hs(2)] hs(1) hs2(1) show ?thesis by blast
  qed
  from A B C D E F G H show ?thesis by blast
qed

theorem sorts_idempotent_up_to_ties_witness:
  "sorted (map title [bid_apple, bid_mango, bid_zebra]) \<and>
   distinct (map title [bid_apple, bid_mango, bid_zebra]) \<and>
   length [bid_apple, bid_mango, bid_zebra] \<le> 2 ^ 32 + 1 \<and>
   selectionSort [bid_apple, bid_mango, bid_zebra] = Some [bid_apple, bid_mango, bid_zebra] \<and>
   mergeSort [bid_apple, bid_mango, bid_zebra] 0 (size_sub (length [bid_apple, bid_mango, bid_zebra]) 1) =
     Some [bid_apple, bid_mango, bid_zebra] \<and>
   quickSort [bid_apple, bid_mango, bid_zebra] 0 (size_sub (length [bid_apple, bid_mango, bid_zebra]) 1) =
     Some [bid_apple, bid_mango, bid_zebra] \<and>
   heapSort [bid_apple, bid_mango, bid_zebra] = Some [bid_apple, bid_mango, bid_zebra]"
proof -
  have h: "sorted (map title [bid_apple, bid_mango, bid_zebra])"
    "distinct (map title [bid_apple, bid_mango, bid_zebra])"
    "length [bid_apple, bid_mango, bid_zebra] \<le> 2 ^ 32 + 1"
    by (simp_all add: sample_defs)
  from sorts_idempotent_up_to_ties[of "[bid_apple, bid_mango, bid_zebra]"] h
  show ?thesis by auto
qed

subsection \<open>C6: the complexity column of the report\<close>

text \<open>
  C6 states that the complexity column of a rendered result is determined by the identity of
  the algorithm, not by matching the display string of the result.

  A \<^verbatim>\<open>BenchmarkResult\<close> carries no identity but its name, and the formatter compares that name
  with four string literals. Two runs of the same algorithm, \<^verbatim>\<open>selectionSort\<close>, on the same data
  get different columns when the caller names them differently.
\<close>

theorem complexity_follows_display_name:
  "map_option (complexity_of \<circ> fst)
     (benchmarkSort (UnarySort selectionSort) ''Selection Sort'' 1500
        \<lparr>caller_bids = [bid_zebra, bid_apple], param_bids = []\<rparr>) =
     Some (''O(n'' @ [CHR 0xC2, CHR 0xB2] @ '')'') \<and>
   map_option (complexity_of \<circ> fst)
     (benchmarkSort (UnarySort selectionSort) ''selection sort'' 1500
        \<lparr>caller_bids = [bid_zebra, bid_apple], param_bids = []\<rparr>) =
     Some []"
  by (simp add: benchmarkSort_def invoke_sort_def complexity_of_def engine_eval sample_defs)

text \<open>
  C6, amended. A rendered row shows the name of the result, and its complexity column is
  looked up from that name: \<^verbatim>\<open>"Selection Sort"\<close> gives the quadratic label, \<^verbatim>\<open>"Quick Sort"\<close>,
  \<^verbatim>\<open>"Merge Sort"\<close> and \<^verbatim>\<open>"Heap Sort"\<close> give \<^verbatim>\<open>"O(n log n)"\<close>, every other name gives an empty
  column. The four results of a sweep carry these four names, so the table of a sweep over a
  non-empty vector shows the four algorithms in the order selection, quick, merge, heap, each
  with the size of the vector, its measured time and the label of the mapping.
\<close>

theorem complexity_column_by_display_name:
  "(results \<noteq> [] \<longrightarrow>
      (\<exists>rows. displayBenchmarks results = Table rows \<and> length rows = length results \<and>
         (\<forall>k < length results.
            fst (rows ! k) = algorithmName (results ! k) \<and>
            snd (snd (snd (rows ! k))) =
              (if fst (rows ! k) = ''Selection Sort'' then ''O(n'' @ [CHR 0xC2, CHR 0xB2] @ '')''
               else if fst (rows ! k) \<in> {''Quick Sort'', ''Merge Sort'', ''Heap Sort''}
               then ''O(n log n)'' else [])))) \<and>
   (caller_bids fr \<noteq> [] \<longrightarrow>
      (\<exists>fr'. runBenchmarkComparison elapsed fr =
         Some (Table [(''Selection Sort'', length (caller_bids fr), real_of_int (elapsed 0) / 1000,
                        ''O(n'' @ [CHR 0xC2, CHR 0xB2] @ '')''),
                      (''Quick Sort'', length (caller_bids fr), real_of_int (elapsed 1) / 1000,
                        ''O(n log n)''),
                      (''Merge Sort'', length (caller_bids fr), real_of_int (elapsed 2) / 1000,
                        ''O(n log n)''),
                      (''Heap Sort'', length (caller_bids fr), real_of_int (elapsed 3) / 1000,
                        ''O(n log n)'')], fr')))"
proof (intro conjI impI)
  assume "results \<noteq> []"
  then show "\<exists>rows. displayBenchmarks results = Table rows \<and> length rows = length results \<and>
         (\<forall>k < length results.
            fst (rows ! k) = algorithmName (results ! k) \<and>
            snd (snd (snd (rows ! k))) =
              (if fst (rows ! k) = ''Selection Sort'' then ''O(n'' @ [CHR 0xC2, CHR 0xB2] @ '')''
               else if fst (rows ! k) \<in> {''Quick Sort'', ''Merge Sort'', ''Heap Sort''}
               then ''O(n log n)'' else []))"
    by (simp add: displayBenchmarks_def complexity_of_def)
next
  assume "caller_bids fr \<noteq> []"
  with runBenchmarkComparison_spec[of elapsed fr]
  show "\<exists>fr'. runBenchmarkComparison elapsed fr =
         Some (Table [(''Selection Sort'', length (caller_bids fr), real_of_int (elapsed 0) / 1000,
                        ''O(n'' @ [CHR 0xC2, CHR 0xB2] @ '')''),
                      (''Quick Sort'', length (caller_bids fr), real_of_int (elapsed 1) / 1000,
                        ''O(n log n)''),
                      (''Merge Sort'', length (caller_bids fr), real_of_int (elapsed 2) / 1000,
                        ''O(n log n)''),
                      (''Heap Sort'', length (caller_bids fr), real_of_int (elapsed 3) / 1000,
                        ''O(n log n)'')], fr')"
    by auto
qed

theorem complexity_column_by_display_name_witness:
  "[\<lparr>algorithmName = ''Heap Sort'', dataSize = 3, executionTimeMs = 2\<rparr>,
    \<lparr>algorithmName = ''Bubble Sort'', dataSize = 3, executionTimeMs = 9\<rparr>] \<noteq> [] \<and>
   caller_bids \<lparr>caller_bids = [bid_zebra, bid_apple, bid_mango], param_bids = []\<rparr> \<noteq> [] \<and>
   displayBenchmarks
     [\<lparr>algorithmName = ''Heap Sort'', dataSize = 3, executionTimeMs = 2\<rparr>,
      \<lparr>algorithmName = ''Bubble Sort'', dataSize = 3, executionTimeMs = 9\<rparr>] =
     Table [(''Heap Sort'', 3, 2, ''O(n log n)''), (''Bubble Sort'', 3, 9, [])] \<and>
   (\<exists>fr'. runBenchmarkComparison (\<lambda>k. 1000 * int k)
        \<lparr>caller_bids = [bid_zebra, bid_apple, bid_mango], param_bids = []\<rparr> =
      Some (Table [(''Selection Sort'', 3, 0, ''O(n'' @ [CHR 0xC2, CHR 0xB2] @ '')''),
                   (''Quick Sort'', 3, 1, ''O(n log n)''),
                   (''Merge Sort'', 3, 2, ''O(n log n)''),
                   (''Heap Sort'', 3, 3, ''O(n log n)'')], fr'))"
proof -
  let ?rs = "[\<lparr>algorithmName = ''Heap Sort'', dataSize = 3, executionTimeMs = 2\<rparr>,
    \<lparr>algorithmName = ''Bubble Sort'', dataSize = 3, executionTimeMs = 9\<rparr>]"
  let ?fr = "\<lparr>caller_bids = [bid_zebra, bid_apple, bid_mango], param_bids = []\<rparr>"
  from complexity_column_by_display_name[of ?rs ?fr "\<lambda>k. 1000 * int k"]
  have "\<exists>fr'. runBenchmarkComparison (\<lambda>k. 1000 * int k) ?fr =
      Some (Table [(''Selection Sort'', 3, 0, ''O(n'' @ [CHR 0xC2, CHR 0xB2] @ '')''),
                   (''Quick Sort'', 3, 1, ''O(n log n)''),
                   (''Merge Sort'', 3, 2, ''O(n log n)''),
                   (''Heap Sort'', 3, 3, ''O(n log n)'')], fr')"
    by (simp add: numeral_3_eq_3)
  moreover have "displayBenchmarks ?rs =
      Table [(''Heap Sort'', 3, 2, ''O(n log n)''), (''Bubble Sort'', 3, 9, [])]"
    by (simp add: displayBenchmarks_def complexity_of_def)
  ultimately show ?thesis by simp
qed

subsection \<open>C7: benchmarking leaves the caller's data alone\<close>

text \<open>
  C7: after any number of benchmark runs and sweeps, in any order and with any measured times,
  every call has returned and the caller's vector is what it was before the first call. A run
  is a call of \<^verbatim>\<open>benchmarkSort\<close> with one of the four algorithms of the program.
\<close>

theorem benchmarking_preserves_caller_data:
  assumes "\<forall>c \<in> set calls. known_call c"
  shows "\<exists>fr'. bench_calls calls fr = Some fr' \<and> caller_bids fr' = caller_bids fr"
  using assms
proof (induction calls arbitrary: fr)
  case Nil
  then show ?case by simp
next
  case (Cons c calls)
  then have "known_call c" by simp
  from bench_call_step_known[OF this, of fr]
  obtain fr1 where fr1: "bench_call_step c fr = Some fr1" "caller_bids fr1 = caller_bids fr"
    by blast
  from Cons.IH[of fr1] Cons.prems
  obtain fr' where "bench_calls calls fr1 = Some fr'" "caller_bids fr' = caller_bids fr1"
    by auto
  with fr1 show ?case by simp
qed

theorem benchmarking_preserves_caller_data_witness:
  "known_call (Run (RangedSort quickSort) ''Quick Sort'' 1500) \<and> known_call (Sweep (\<lambda>k. 2000)) \<and>
   known_call (Run (UnarySort heapSort) ''Heap Sort'' 40) \<and>
   (\<exists>fr'. bench_calls [Run (RangedSort quickSort) ''Quick Sort'' 1500, Sweep (\<lambda>k. 2000),
                        Run (UnarySort heapSort) ''Heap Sort'' 40]
            \<lparr>caller_bids = [bid_zebra, bid_apple, bid_mango], param_bids = []\<rparr> = Some fr' \<and>
          caller_bids fr' = [bid_zebra, bid_apple, bid_mango])"
proof -
  have k: "known_call (Run (RangedSort quickSort) ''Quick Sort'' 1500)"
    "known_call (Sweep (\<lambda>k. 2000))" "known_call (Run (UnarySort heapSort) ''Heap Sort'' 40)"
    by (simp_all add: bench_algorithms_def)
  then have "\<forall>c \<in> set [Run (RangedSort quickSort) ''Quick Sort'' 1500, Sweep (\<lambda>k. 2000),
                Run (UnarySort heapSort) ''Heap Sort'' 40]. known_call c"
    by simp
  from benchmarking_preserves_caller_data[OF this,
      of "\<lparr>caller_bids = [bid_zebra, bid_apple, bid_mango], param_bids = []\<rparr>"] k
  show ?thesis by simp
qed

subsection \<open>C8: degenerate inputs\<close>

text \<open>
  C8: a sequence of length 0 or 1 is returned unchanged by all four sorts (the ranged ones
  called over the full range), and a ranged call with \<open>fin \<le> beg\<close> returns the sequence
  unchanged, whatever the sequence and the bounds are. Returning \<open>Some\<close> says that no access was
  out of range.
\<close>

theorem degenerate_inputs_are_noops:
  "(length bids \<le> 1 \<longrightarrow>
      selectionSort bids = Some bids \<and>
      quickSort bids 0 (size_sub (length bids) 1) = Some bids \<and>
      mergeSort bids 0 (size_sub (length bids) 1) = Some bids \<and>
      heapSort bids = Some bids) \<and>
   (fin \<le> beg \<longrightarrow> quickSort seq beg fin = Some seq \<and> mergeSort seq beg fin = Some seq)"
proof (intro conjI impI)
  assume fb: "fin \<le> beg"
  show "quickSort seq beg fin = Some seq" using fb by (subst quickSort.simps) simp
  show "mergeSort seq beg fin = Some seq" using fb by (subst mergeSort.simps) simp
next
  assume l: "length bids \<le> 1"
  then have srt: "sorted (map title bids)" by (cases bids) auto
  show "selectionSort bids = Some bids" using srt by (rule selectionSort_sorted_id)
  show "mergeSort bids 0 (size_sub (length bids) 1) = Some bids"
    using mergeSort_full[of bids] srt by (simp add: sort_key_id_if_sorted)
  show "quickSort bids 0 (size_sub (length bids) 1) = Some bids"
  proof (cases bids)
    case Nil
    then show ?thesis by (subst quickSort.simps) simp
  next
    case (Cons b bs)
    with l have "bs = []" by simp
    with Cons show ?thesis by (subst quickSort.simps) (simp add: size_sub_def)
  qed
  show "heapSort bids = Some bids"
  proof (cases bids)
    case Nil
    then show ?thesis by (simp add: heapSort_def)
  next
    case (Cons b bs)
    with l have "bs = []" by simp
    with Cons show ?thesis
      by (simp add: heapSort_def int_of_size_def size_sub_def build_heap_loop.simps
          extract_loop.simps)
  qed
qed

theorem degenerate_inputs_are_noops_witness:
  "length [bid_zebra] \<le> 1 \<and> (2::nat) \<le> 7 \<and>
   selectionSort [bid_zebra] = Some [bid_zebra] \<and>
   quickSort [bid_zebra] 0 (size_sub (length [bid_zebra]) 1) = Some [bid_zebra] \<and>
   mergeSort [bid_zebra] 0 (size_sub (length [bid_zebra]) 1) = Some [bid_zebra] \<and>
   heapSort [bid_zebra] = Some [bid_zebra] \<and>
   quickSort [bid_zebra, bid_apple, bid_mango] 7 2 = Some [bid_zebra, bid_apple, bid_mango] \<and>
   mergeSort [bid_zebra, bid_apple, bid_mango] 7 2 = Some [bid_zebra, bid_apple, bid_mango]"
  using degenerate_inputs_are_noops[of "[bid_zebra]" 2 7 "[bid_zebra, bid_apple, bid_mango]"]
  by simp

subsection \<open>C9: benchmarking a degenerate input\<close>

text \<open>
  C9 states that a benchmark run on a sequence of length 0 or 1 yields a result of size zero and
  time zero, and that on the empty sequence the sort is not invoked.

  For a sequence of one record this is not what \<^verbatim>\<open>benchmarkSort\<close> returns: the record is not
  empty, so the sort is called and timed, and the result reports \<^verbatim>\<open>bids.size()\<close>, which is 1.
\<close>

theorem singleton_benchmark_reports_size_one:
  "length (caller_bids \<lparr>caller_bids = [bid_zebra], param_bids = []\<rparr>) \<le> 1 \<and>
   map_option fst (benchmarkSort (UnarySort selectionSort) ''Selection Sort'' 0
      \<lparr>caller_bids = [bid_zebra], param_bids = []\<rparr>) =
     Some \<lparr>algorithmName = ''Selection Sort'', dataSize = 1, executionTimeMs = 0\<rparr> \<and>
   map_option (dataSize \<circ> fst) (benchmarkSort (UnarySort selectionSort) ''Selection Sort'' 0
      \<lparr>caller_bids = [bid_zebra], param_bids = []\<rparr>) \<noteq> Some 0"
  by (simp add: benchmarkSort_def invoke_sort_def engine_eval)

text \<open>
  C9, amended. On the empty sequence \<^verbatim>\<open>benchmarkSort\<close> returns the result of size 0 and
  time 0 under the given name, for every sort function it is handed, also one that fails on
  every input: the function is not called. On a sequence of one record, with each of the four
  algorithms, it returns the result of size 1 with the measured time, and the sort has left the
  record as it was.
\<close>

theorem benchmark_of_degenerate_inputs:
  "(caller_bids fr = [] \<longrightarrow>
      (\<exists>fr'. benchmarkSort sortFunction name elapsed_us fr =
         Some (\<lparr>algorithmName = name, dataSize = 0, executionTimeMs = 0\<rparr>, fr'))) \<and>
   (length (caller_bids fr) = 1 \<and> (sortFunction, name) \<in> set bench_algorithms \<longrightarrow>
      (\<exists>fr'. benchmarkSort sortFunction name elapsed_us fr =
         Some (\<lparr>algorithmName = name, dataSize = 1,
                 executionTimeMs = real_of_int elapsed_us / 1000\<rparr>, fr') \<and>
         param_bids fr' = caller_bids fr))"
proof (intro conjI impI)
  assume "caller_bids fr = []"
  then show "\<exists>fr'. benchmarkSort sortFunction name elapsed_us fr =
         Some (\<lparr>algorithmName = name, dataSize = 0, executionTimeMs = 0\<rparr>, fr')"
    by (simp add: benchmarkSort_def)
next
  assume h: "length (caller_bids fr) = 1 \<and> (sortFunction, name) \<in> set bench_algorithms"
  then obtain b where b: "caller_bids fr = [b]" by (cases "caller_bids fr") auto
  from invoke_sort_algorithms[of sortFunction name "[b]"] h
  obtain out where out: "invoke_sort sortFunction [b] = Some out" "mset out = mset [b]" by blast
  then have "out = [b]" by simp
  with out(1) b show "\<exists>fr'. benchmarkSort sortFunction name elapsed_us fr =
         Some (\<lparr>algorithmName = name, dataSize = 1,
                 executionTimeMs = real_of_int elapsed_us / 1000\<rparr>, fr') \<and>
         param_bids fr' = caller_bids fr"
    by (simp add: benchmarkSort_def)
qed

theorem benchmark_of_degenerate_inputs_witness:
  "caller_bids \<lparr>caller_bids = [], param_bids = [bid_apple]\<rparr> = [] \<and>
   (\<exists>fr'. benchmarkSort (UnarySort (\<lambda>bids. None)) ''Heap Sort'' 250
        \<lparr>caller_bids = [], param_bids = [bid_apple]\<rparr> =
      Some (\<lparr>algorithmName = ''Heap Sort'', dataSize = 0, executionTimeMs = 0\<rparr>, fr'))"
  using benchmark_of_degenerate_inputs[of "\<lparr>caller_bids = [], param_bids = [bid_apple]\<rparr>"
      "UnarySort (\<lambda>bids. None)" "''Heap Sort''" 250]
  by simp

subsection \<open>C10: the original and the enhanced variant agree\<close>

text \<open>
  C10: on a non-empty sequence the original \<^verbatim>\<open>selectionSort\<close> leaves what the enhanced one
  leaves, and on a non-empty sequence with \<open>beg \<le> fin < length bids\<close> the original
  \<^verbatim>\<open>quickSort\<close> leaves what the enhanced one leaves. In both cases the two calls return.
\<close>

theorem original_and_enhanced_agree:
  "(bids \<noteq> [] \<longrightarrow>
      (\<exists>out. selectionSort_original bids = Some out \<and> selectionSort bids = Some out)) \<and>
   (bids \<noteq> [] \<and> beg \<le> fin \<and> fin < length bids \<longrightarrow>
      (\<exists>out. quickSort_original bids beg fin = Some out \<and> quickSort bids beg fin = Some out))"
proof (intro conjI impI)
  assume "bids \<noteq> []"
  then show "\<exists>out. selectionSort_original bids = Some out \<and> selectionSort bids = Some out"
    using selectionSort_original_eq[of bids] selectionSort_spec[of bids] by auto
next
  assume "bids \<noteq> [] \<and> beg \<le> fin \<and> fin < length bids"
  then have "fin < length bids" by simp
  from quickSort_spec[OF this, of beg]
  show "\<exists>out. quickSort_original bids beg fin = Some out \<and> quickSort bids beg fin = Some out"
    by blast
qed

theorem original_and_enhanced_agree_witness:
  "[bid_mango, bid_zebra, bid_a1, bid_apple, bid_a2] \<noteq> [] \<and> (1::nat) \<le> 3 \<and>
   3 < length [bid_mango, bid_zebra, bid_a1, bid_apple, bid_a2] \<and>
   (\<exists>out. selectionSort_original [bid_mango, bid_zebra, bid_a1, bid_apple, bid_a2] = Some out \<and>
      selectionSort [bid_mango, bid_zebra, bid_a1, bid_apple, bid_a2] = Some out) \<and>
   (\<exists>out. quickSort_original [bid_mango, bid_zebra, bid_a1, bid_apple, bid_a2] 1 3 = Some out \<and>
      quickSort [bid_mango, bid_zebra, bid_a1, bid_apple, bid_a2] 1 3 = Some out)"
  using original_and_enhanced_agree[of "[bid_mango, bid_zebra, bid_a1, bid_apple, bid_a2]" 1 3]
  by simp

section \<open>Further properties of the engine\<close>

text \<open>
  \<^verbatim>\<open>mergeSort\<close> over the full range computes the stable sort by title: it returns, on every
  input, the list that the insertion sort \<open>sort_key title\<close> of the list library returns.
\<close>

theorem mergeSort_is_the_stable_sort:
  "mergeSort bids 0 (size_sub (length bids) 1) = Some (sort_key title bids)"
  by (rule mergeSort_full)

text \<open>
  \<^verbatim>\<open>quickSort\<close> on a range \<open>[beg, fin]\<close> inside the vector returns, leaves the range ascending by
  title, keeps the multiset of records and leaves every position outside the range as it was.
\<close>

theorem quickSort_sorts_its_range:
  assumes "fin < length bids"
  shows "\<exists>out. quickSort bids beg fin = Some out \<and> mset out = mset bids \<and>
           (\<forall>k. k < beg \<or> fin < k \<longrightarrow> out ! k = bids ! k) \<and>
           (\<forall>a b. beg \<le> a \<and> a \<le> b \<and> b \<le> fin \<longrightarrow> title (out ! a) \<le> title (out ! b))"
  using quickSort_spec[OF assms, of beg] by blast

theorem quickSort_sorts_its_range_witness:
  "3 < length [bid_mango, bid_zebra, bid_a1, bid_apple, bid_a2] \<and>
   (\<exists>out. quickSort [bid_mango, bid_zebra, bid_a1, bid_apple, bid_a2] 1 3 = Some out \<and>
      mset out = mset [bid_mango, bid_zebra, bid_a1, bid_apple, bid_a2] \<and>
      out ! 0 = bid_mango \<and> out ! 4 = bid_a2 \<and>
      title (out ! 1) \<le> title (out ! 2) \<and> title (out ! 2) \<le> title (out ! 3))"
proof -
  let ?W = "[bid_mango, bid_zebra, bid_a1, bid_apple, bid_a2]"
  have l: "3 < length ?W" by simp
  from quickSort_sorts_its_range[OF l, of 1]
  obtain out where o: "quickSort ?W 1 3 = Some out" "mset out = mset ?W"
    "\<forall>k. k < 1 \<or> 3 < k \<longrightarrow> out ! k = ?W ! k"
    "\<forall>a b. 1 \<le> a \<and> a \<le> b \<and> b \<le> 3 \<longrightarrow> title (out ! a) \<le> title (out ! b)"
    by blast
  have "out ! 0 = bid_mango" "out ! 4 = bid_a2" using o(3) by simp_all
  moreover have "title (out ! 1) \<le> title (out ! 2)" "title (out ! 2) \<le> title (out ! 3)"
    using o(4) by simp_all
  ultimately show ?thesis using o(1,2) l by blast
qed

end
